theory Spec2Isabelle
  imports Complex_Main
begin

section \<open>Progress envelopes\<close>

text \<open>
  The hooks \<^verbatim>\<open>useWebSocket\<close> and \<^verbatim>\<open>useProgress\<close> receive JSON values and read the
  properties \<^verbatim>\<open>type\<close>, \<^verbatim>\<open>status\<close> and \<^verbatim>\<open>error\<close> of them; the component
  \<^verbatim>\<open>ProgressSection\<close> reads \<^verbatim>\<open>progress\<close> and \<^verbatim>\<open>total\<close>. A property that is absent
  (JavaScript \<^verbatim>\<open>undefined\<close>) is \<open>None\<close>. A discriminator that is not a string is never
  \<^verbatim>\<open>===\<close> to a string literal, so it behaves as an absent one. JavaScript numbers are
  idealised as reals. \<open>dresults\<close> holds the items of \<^verbatim>\<open>data.results\<close> when that is an array
  of item records; it is \<open>None\<close> when \<^verbatim>\<open>results\<close> is absent or is anything else on which
  \<^verbatim>\<open>data.results.filter((r) => r.success)\<close> throws.
\<close>

record envelope =
  dtype :: "string option"
  dstatus :: "string option"
  derror :: "string option"
  dprogress :: "real option"
  dtotal :: "real option"
  dresults :: "string list option"

text \<open>
  A parsed JSON value is \<^verbatim>\<open>null\<close>, on which every property read throws a TypeError,
  or a value whose properties can be read. Numbers, strings, booleans and arrays have
  none of the properties above and behave as an envelope with every field absent.
\<close>

datatype json = JNull | JObj envelope

text \<open>The text of a push frame, as \<^verbatim>\<open>JSON.parse\<close> sees it: it throws, or yields a value.\<close>

datatype frame = Malformed | Text json

text \<open>
  The consumer's callbacks are recorded, not run: \<open>OnTick sid d\<close> is a call of the
  \<^verbatim>\<open>onTick\<close> function that was handed to \<^verbatim>\<open>start(sid, onTick)\<close>, \<open>OnComplete\<close> and
  \<open>OnError\<close> are calls of the two functions handed to the hook.
\<close>

datatype callback = OnTick string json | OnComplete json | OnError string

text \<open>
  A callback is the caller's function and can throw. A consumer says of every call
  whether it throws: \<open>c cb\<close> holds when the call \<open>cb\<close> throws. Both hooks call the
  consumer inside a \<^verbatim>\<open>try\<close> block: \<open>invoke c cbs\<close> makes the calls \<open>cbs\<close> in order up to
  and including the first that throws, and returns the calls made and whether all of
  them returned; when one threw, the rest of the \<^verbatim>\<open>try\<close> block is skipped and the
  \<^verbatim>\<open>catch\<close> block runs.
\<close>

type_synonym consumer = "callback \<Rightarrow> bool"

fun invoke :: "consumer \<Rightarrow> callback list \<Rightarrow> callback list \<times> bool" where
  "invoke c [] = ([], True)"
| "invoke c (cb # cbs) =
     (if c cb then ([cb], False)
      else (case invoke c cbs of (out, ok) \<Rightarrow> (cb # out, ok)))"

text \<open>\<^verbatim>\<open>data.error || 'Processing error'\<close>: the empty string is falsy.\<close>

definition error_message :: "envelope \<Rightarrow> string" where
  "error_message d =
     (case derror d of
        None \<Rightarrow> ''Processing error''
      | Some m \<Rightarrow> if m = [] then ''Processing error'' else m)"

section \<open>ProgressSection: the completion percentage\<close>

text \<open>
  JavaScript arithmetic on possibly absent numbers. A result \<open>None\<close> is a value that is
  not a finite number (\<^verbatim>\<open>NaN\<close>, \<^verbatim>\<open>Infinity\<close>): \<^verbatim>\<open>undefined > 0\<close> is false,
  \<^verbatim>\<open>undefined / x\<close> is \<^verbatim>\<open>NaN\<close>, and a division by zero is \<^verbatim>\<open>NaN\<close> or infinite.
\<close>

definition js_gt :: "real option \<Rightarrow> real \<Rightarrow> bool" where
  "js_gt a y = (case a of None \<Rightarrow> False | Some x \<Rightarrow> y < x)"

definition js_div :: "real option \<Rightarrow> real option \<Rightarrow> real option" where
  "js_div a b =
     (case (a, b) of
        (Some x, Some y) \<Rightarrow> if y = 0 then None else Some (x / y)
      | _ \<Rightarrow> None)"

definition js_mul :: "real option \<Rightarrow> real \<Rightarrow> real option" where
  "js_mul a y = map_option (\<lambda>x. x * y) a"

text \<open>\<^verbatim>\<open>const percent = data.total > 0 ? (data.progress / data.total) * 100 : 0;\<close>\<close>

definition percent :: "envelope \<Rightarrow> real option" where
  "percent d =
     (if js_gt (dtotal d) 0 then js_mul (js_div (dprogress d) (dtotal d)) 100
      else Some 0)"

section \<open>The push channel: useWebSocket\<close>

text \<open>
  The hook keeps two references: \<open>wsRef\<close>, the current connection, and \<open>pingRef\<close>, the
  keepalive interval. The \<^verbatim>\<open>WebSocket\<close> objects and the interval timers live outside
  the hook; they are kept in a store, addressed by numbers that are never reused and
  never zero (a timer id is truthy). A socket remembers the session it was created
  for, which also identifies the \<^verbatim>\<open>onTick\<close> closure its handlers captured.
\<close>

datatype readyState = CONNECTING | OPEN | CLOSING | CLOSED

record socket =
  readyState :: readyState
  session :: string

record ws_state =
  wsRef :: "nat option"
  pingRef :: "nat option"
  sockets :: "nat \<rightharpoonup> socket"
  intervals :: "nat \<rightharpoonup> nat"
  pings :: "nat list"
  ws_fresh :: nat

definition ws_init :: ws_state where
  "ws_init = \<lparr>wsRef = None, pingRef = None, sockets = Map.empty, intervals = Map.empty,
              pings = [], ws_fresh = 1\<rparr>"

text \<open>\<^verbatim>\<open>WebSocket.close()\<close>: a socket that is closing or closed stays as it is.\<close>

definition socket_close :: "socket \<Rightarrow> socket" where
  "socket_close k =
     (if readyState k = CLOSING \<or> readyState k = CLOSED then k
      else k\<lparr>readyState := CLOSING\<rparr>)"

text \<open>
  \<^verbatim>\<open>if (pingRef.current) { clearInterval(pingRef.current); pingRef.current = null; }\<close>,
  which both \<^verbatim>\<open>stop\<close> and \<^verbatim>\<open>ws.onclose\<close> contain.
\<close>

definition clear_ping :: "ws_state \<Rightarrow> ws_state" where
  "clear_ping s =
     (case pingRef s of
        None \<Rightarrow> s
      | Some t \<Rightarrow> s\<lparr>intervals := (intervals s)(t := None), pingRef := None\<rparr>)"

text \<open>\<^verbatim>\<open>if (wsRef.current) { wsRef.current.close(); wsRef.current = null; }\<close>\<close>

definition close_current :: "ws_state \<Rightarrow> ws_state" where
  "close_current s =
     (case wsRef s of
        None \<Rightarrow> s
      | Some i \<Rightarrow>
          s\<lparr>sockets := (case sockets s i of
                            None \<Rightarrow> sockets s
                          | Some k \<Rightarrow> (sockets s)(i \<mapsto> socket_close k)),
             wsRef := None\<rparr>)"

definition ws_stop :: "ws_state \<Rightarrow> ws_state" where
  "ws_stop s = close_current (clear_ping s)"

text \<open>
  \<^verbatim>\<open>start(sessionId, onTick)\<close> calls \<^verbatim>\<open>stop()\<close> and then \<^verbatim>\<open>new WebSocket(wsUrl)\<close>.
  The constructor can throw (the flag \<open>ctor_ok\<close> is the environment's choice); then
  \<^verbatim>\<open>start\<close> throws with the state \<^verbatim>\<open>stop()\<close> left: \<open>Inl\<close>. Otherwise it returns: \<open>Inr\<close>.
\<close>

definition ws_start :: "ws_state \<Rightarrow> string \<Rightarrow> bool \<Rightarrow> ws_state + ws_state" where
  "ws_start s sid ctor_ok =
     (let s1 = ws_stop s in
      if \<not> ctor_ok then Inl s1
      else let i = ws_fresh s1 in
        Inr (s1\<lparr>sockets := (sockets s1)(i \<mapsto> \<lparr>readyState = CONNECTING, session = sid\<rparr>),
                wsRef := Some i, ws_fresh := Suc i\<rparr>))"

text \<open>\<^verbatim>\<open>ws.onopen\<close> of socket \<open>i\<close>: \<^verbatim>\<open>pingRef.current = setInterval(..., 25000)\<close>.\<close>

definition ws_onopen :: "ws_state \<Rightarrow> nat \<Rightarrow> ws_state" where
  "ws_onopen s i =
     (let t = ws_fresh s in
      s\<lparr>intervals := (intervals s)(t \<mapsto> i), pingRef := Some t, ws_fresh := Suc t\<rparr>)"

text \<open>The interval's function: \<^verbatim>\<open>if (ws.readyState === WebSocket.OPEN) ws.send('ping')\<close>.\<close>

definition ws_ping :: "ws_state \<Rightarrow> nat \<Rightarrow> ws_state" where
  "ws_ping s i =
     (case sockets s i of
        None \<Rightarrow> s
      | Some k \<Rightarrow> if readyState k = OPEN then s\<lparr>pings := pings s @ [i]\<rparr> else s)"

text \<open>
  \<^verbatim>\<open>ws.onmessage\<close> of a socket whose \<^verbatim>\<open>onTick\<close> belongs to session \<open>sid\<close>. The whole body
  is inside \<^verbatim>\<open>try { ... } catch (e) { }\<close>: a frame that does not parse, and \<^verbatim>\<open>null\<close>
  (whose \<^verbatim>\<open>.type\<close> throws), do nothing. The empty \<^verbatim>\<open>catch\<close> also swallows what a
  callback throws, and then the \<^verbatim>\<open>stop()\<close> that ends a terminal branch is not reached.
\<close>

definition ws_onmessage ::
  "consumer \<Rightarrow> ws_state \<Rightarrow> string \<Rightarrow> frame \<Rightarrow> ws_state \<times> callback list" where
  "ws_onmessage c s sid fr =
     (case fr of
        Malformed \<Rightarrow> (s, [])
      | Text JNull \<Rightarrow> (s, [])
      | Text (JObj d) \<Rightarrow>
          if dtype d = Some ''pong'' then (s, [])
          else if dtype d = Some ''completed'' \<or> dstatus d = Some ''completed''
            then (case invoke c [OnTick sid (JObj d), OnComplete (JObj d)] of
                    (out, ok) \<Rightarrow> (if ok then ws_stop s else s, out))
          else if dtype d = Some ''error'' \<or> dstatus d = Some ''error''
            then (case invoke c [OnError (error_message d)] of
                    (out, ok) \<Rightarrow> (if ok then ws_stop s else s, out))
          else (case invoke c [OnTick sid (JObj d)] of (out, ok) \<Rightarrow> (s, out)))"

text \<open>\<^verbatim>\<open>ws.onerror\<close> has an empty body; \<^verbatim>\<open>ws.onclose\<close> clears the keepalive interval.\<close>

definition ws_onerror :: "ws_state \<Rightarrow> ws_state" where
  "ws_onerror s = s"

definition ws_onclose :: "ws_state \<Rightarrow> ws_state" where
  "ws_onclose s = clear_ping s"

text \<open>
  What can happen to the hook: its two operations (\<open>WsStop\<close> is also the cleanup of
  \<^verbatim>\<open>useEffect\<close> on unmount) and the events of the WebSocket interface. That interface
  fires \<^verbatim>\<open>open\<close> only on a connecting socket, \<^verbatim>\<open>message\<close> only while \<^verbatim>\<open>readyState\<close> is
  \<^verbatim>\<open>OPEN\<close>, and when a connection ends it sets \<^verbatim>\<open>readyState\<close> to \<^verbatim>\<open>CLOSED\<close> and fires
  \<^verbatim>\<open>close\<close>, after \<^verbatim>\<open>error\<close> when the connection failed (\<open>WsFail\<close>). \<open>WsPing t\<close> is a
  tick of interval \<open>t\<close>. An event that the interface cannot fire changes nothing.
\<close>

datatype ws_event =
  WsStart string bool | WsStop | WsOpen nat | WsMessage nat frame | WsFail nat
  | WsClose nat | WsPing nat

definition set_readyState :: "ws_state \<Rightarrow> nat \<Rightarrow> socket \<Rightarrow> readyState \<Rightarrow> ws_state" where
  "set_readyState s i k r = s\<lparr>sockets := (sockets s)(i \<mapsto> k\<lparr>readyState := r\<rparr>)\<rparr>"

fun ws_step :: "consumer \<Rightarrow> ws_state \<Rightarrow> ws_event \<Rightarrow> ws_state \<times> callback list" where
  "ws_step c s (WsStart sid ctor_ok) =
     (case ws_start s sid ctor_ok of Inl s1 \<Rightarrow> (s1, []) | Inr s1 \<Rightarrow> (s1, []))"
| "ws_step c s WsStop = (ws_stop s, [])"
| "ws_step c s (WsOpen i) =
     (case sockets s i of
        None \<Rightarrow> (s, [])
      | Some k \<Rightarrow>
          if readyState k = CONNECTING then (ws_onopen (set_readyState s i k OPEN) i, [])
          else (s, []))"
| "ws_step c s (WsMessage i fr) =
     (case sockets s i of
        None \<Rightarrow> (s, [])
      | Some k \<Rightarrow> if readyState k = OPEN then ws_onmessage c s (session k) fr else (s, []))"
| "ws_step c s (WsFail i) =
     (case sockets s i of
        None \<Rightarrow> (s, [])
      | Some k \<Rightarrow>
          if readyState k = CLOSED then (s, [])
          else (ws_onclose (ws_onerror (set_readyState s i k CLOSED)), []))"
| "ws_step c s (WsClose i) =
     (case sockets s i of
        None \<Rightarrow> (s, [])
      | Some k \<Rightarrow>
          if readyState k = CLOSED then (s, [])
          else (ws_onclose (set_readyState s i k CLOSED), []))"
| "ws_step c s (WsPing t) =
     (case intervals s t of None \<Rightarrow> (s, []) | Some i \<Rightarrow> (ws_ping s i, []))"

text \<open>A run: the state after a list of events, and the callbacks invoked on the way.\<close>

fun ws_run :: "consumer \<Rightarrow> ws_state \<Rightarrow> ws_event list \<Rightarrow> ws_state \<times> callback list" where
  "ws_run c s [] = (s, [])"
| "ws_run c s (e # es) =
     (case ws_step c s e of (s1, out1) \<Rightarrow>
        (case ws_run c s1 es of (s2, out2) \<Rightarrow> (s2, out1 @ out2)))"

fun ws_is_start :: "ws_event \<Rightarrow> bool" where
  "ws_is_start (WsStart _ _) = True"
| "ws_is_start _ = False"

section \<open>The pull channel: useProgress\<close>

text \<open>
  Every call of \<^verbatim>\<open>start\<close> makes a new closure \<^verbatim>\<open>poll\<close>; it is identified by the number of
  the call and remembers the session. The timeouts and the requests that have not
  settled live outside the hook: \<open>timers\<close> are the pending timeouts with the closure
  each will call, \<open>inflight\<close> the closures suspended at
  \<^verbatim>\<open>await api.getProgress(sessionId)\<close>, both in the order they were made. Timer ids are
  never reused and never zero.
\<close>

type_synonym poll = "nat \<times> string"

record timer =
  tid :: nat
  delay :: nat
  handler :: poll

record poll_state =
  timerRef :: "nat option"
  timers :: "timer list"
  inflight :: "poll list"
  next_timer :: nat
  loops :: nat

definition poll_init :: poll_state where
  "poll_init = \<lparr>timerRef = None, timers = [], inflight = [], next_timer = 1, loops = 0\<rparr>"

text \<open>\<^verbatim>\<open>if (timerRef.current) { clearTimeout(timerRef.current); timerRef.current = null; }\<close>\<close>

definition poll_stop :: "poll_state \<Rightarrow> poll_state" where
  "poll_stop s =
     (case timerRef s of
        None \<Rightarrow> s
      | Some t \<Rightarrow> s\<lparr>timers := filter (\<lambda>x. tid x \<noteq> t) (timers s), timerRef := None\<rparr>)"

text \<open>\<^verbatim>\<open>timerRef.current = setTimeout(poll, d)\<close>\<close>

definition schedule :: "poll_state \<Rightarrow> poll \<Rightarrow> nat \<Rightarrow> poll_state" where
  "schedule s p d =
     s\<lparr>timers := timers s @ [\<lparr>tid = next_timer s, delay = d, handler = p\<rparr>],
       timerRef := Some (next_timer s), next_timer := Suc (next_timer s)\<rparr>"

text \<open>
  The async function \<^verbatim>\<open>poll\<close> in three parts: the call, which issues the request and
  suspends; the rest of the \<^verbatim>\<open>try\<close> block, run when the request resolves with \<open>data\<close>;
  the \<^verbatim>\<open>catch\<close> block, run when the request is rejected. The \<^verbatim>\<open>catch\<close> block also
  receives the TypeError of \<^verbatim>\<open>data.status\<close> on \<^verbatim>\<open>null\<close>, after \<^verbatim>\<open>onTick(data)\<close> has run,
  and whatever a callback throws: in each case it schedules the next request after
  2000, also when the response was terminal.
\<close>

definition poll_call :: "poll_state \<Rightarrow> poll \<Rightarrow> poll_state" where
  "poll_call s p = s\<lparr>inflight := inflight s @ [p]\<rparr>"

definition poll_resolved ::
  "consumer \<Rightarrow> poll_state \<Rightarrow> poll \<Rightarrow> json \<Rightarrow> poll_state \<times> callback list" where
  "poll_resolved c s p data =
     (case data of
        JNull \<Rightarrow> (schedule s p 2000, [OnTick (snd p) data])
      | JObj d \<Rightarrow>
          if dstatus d = Some ''completed''
            then (case invoke c [OnTick (snd p) data, OnComplete data] of
                    (out, ok) \<Rightarrow> (if ok then s else schedule s p 2000, out))
          else if dstatus d = Some ''error''
            then (case invoke c [OnTick (snd p) data, OnError (error_message d)] of
                    (out, ok) \<Rightarrow> (if ok then s else schedule s p 2000, out))
          else (case invoke c [OnTick (snd p) data] of
                  (out, ok) \<Rightarrow> (if ok then schedule s p 800 else schedule s p 2000, out)))"

definition poll_rejected :: "poll_state \<Rightarrow> poll \<Rightarrow> poll_state \<times> callback list" where
  "poll_rejected s p = (schedule s p 2000, [])"

text \<open>\<^verbatim>\<open>start(sessionId, onTick)\<close>: \<^verbatim>\<open>stop()\<close>, a new closure, \<^verbatim>\<open>poll()\<close>.\<close>

definition poll_start :: "poll_state \<Rightarrow> string \<Rightarrow> poll_state" where
  "poll_start s sid =
     (let s1 = poll_stop s in
      poll_call (s1\<lparr>loops := Suc (loops s1)\<rparr>) (loops s1, sid))"

text \<open>\<open>take_at k xs\<close> takes the element at position \<open>k\<close> out of \<open>xs\<close>, if there is one.\<close>

fun take_at :: "nat \<Rightarrow> 'a list \<Rightarrow> ('a \<times> 'a list) option" where
  "take_at _ [] = None"
| "take_at 0 (x # xs) = Some (x, xs)"
| "take_at (Suc k) (x # xs) =
     (case take_at k xs of None \<Rightarrow> None | Some (y, ys) \<Rightarrow> Some (y, x # ys))"

text \<open>
  What can happen to the hook: its two operations, the request at position \<open>k\<close> of
  \<open>inflight\<close> resolving with a value or being rejected (a network failure, a timeout,
  a body that does not parse), and the timeout at position \<open>k\<close> of \<open>timers\<close> firing.
  An event for a position that does not exist changes nothing.
\<close>

datatype poll_event =
  PollStart string | PollStop | Resolve nat json | Reject nat | Fire nat

fun poll_step ::
  "consumer \<Rightarrow> poll_state \<Rightarrow> poll_event \<Rightarrow> poll_state \<times> callback list" where
  "poll_step c s (PollStart sid) = (poll_start s sid, [])"
| "poll_step c s PollStop = (poll_stop s, [])"
| "poll_step c s (Resolve k data) =
     (case take_at k (inflight s) of
        None \<Rightarrow> (s, [])
      | Some (p, rest) \<Rightarrow> poll_resolved c (s\<lparr>inflight := rest\<rparr>) p data)"
| "poll_step c s (Reject k) =
     (case take_at k (inflight s) of
        None \<Rightarrow> (s, [])
      | Some (p, rest) \<Rightarrow> poll_rejected (s\<lparr>inflight := rest\<rparr>) p)"
| "poll_step c s (Fire k) =
     (case take_at k (timers s) of
        None \<Rightarrow> (s, [])
      | Some (t, rest) \<Rightarrow> (poll_call (s\<lparr>timers := rest\<rparr>) (handler t), []))"

fun poll_run ::
  "consumer \<Rightarrow> poll_state \<Rightarrow> poll_event list \<Rightarrow> poll_state \<times> callback list" where
  "poll_run c s [] = (s, [])"
| "poll_run c s (e # es) =
     (case poll_step c s e of (s1, out1) \<Rightarrow>
        (case poll_run c s1 es of (s2, out2) \<Rightarrow> (s2, out1 @ out2)))"

fun poll_is_start :: "poll_event \<Rightarrow> bool" where
  "poll_is_start (PollStart _) = True"
| "poll_is_start _ = False"

text \<open>The number of requests in flight and of pending timeouts of the closure \<open>l\<close>.\<close>

definition loop_load :: "poll_state \<Rightarrow> nat \<Rightarrow> nat" where
  "loop_load s l =
     length (filter (\<lambda>p. fst p = l) (inflight s))
     + length (filter (\<lambda>t. fst (handler t) = l) (timers s))"

section \<open>The application: startSolving\<close>

text \<open>
  \<^verbatim>\<open>try { ws.start(sessionId, ...) } catch { startPolling(sessionId, ...) }\<close>: the pull
  channel is started when, and only when, \<^verbatim>\<open>ws.start\<close> throws. Both \<^verbatim>\<open>onTick\<close> closures
  are \<^verbatim>\<open>(data) => setProgressData(data)\<close>. The three state setters that come first in
  \<^verbatim>\<open>startSolving\<close> touch the view only and are left out.

  The callbacks of the application: \<^verbatim>\<open>onTick\<close> is a state setter and \<^verbatim>\<open>handleError\<close> sets
  state and shows a toast, neither throws; \<^verbatim>\<open>handleComplete\<close> evaluates
  \<^verbatim>\<open>data.results.filter((r) => r.success)\<close> and throws a TypeError when it cannot.
\<close>

definition app_throws :: consumer where
  "app_throws cb =
     (case cb of
        OnComplete JNull \<Rightarrow> True
      | OnComplete (JObj d) \<Rightarrow> dresults d = None
      | _ \<Rightarrow> False)"


record app_state =
  app_ws :: ws_state
  app_poll :: poll_state

definition app_init :: app_state where
  "app_init = \<lparr>app_ws = ws_init, app_poll = poll_init\<rparr>"

definition startSolving :: "app_state \<Rightarrow> string \<Rightarrow> bool \<Rightarrow> app_state" where
  "startSolving st sid ctor_ok =
     (case ws_start (app_ws st) sid ctor_ok of
        Inr w \<Rightarrow> st\<lparr>app_ws := w\<rparr>
      | Inl w \<Rightarrow> st\<lparr>app_ws := w, app_poll := poll_start (app_poll st) sid\<rparr>)"

text \<open>
  The application calls \<^verbatim>\<open>startSolving\<close>; everything else is an event of one of the two
  channels.
\<close>

datatype app_event = StartSolving string bool | Push ws_event | Pull poll_event

fun app_step :: "app_state \<Rightarrow> app_event \<Rightarrow> app_state \<times> callback list" where
  "app_step st (StartSolving sid ctor_ok) = (startSolving st sid ctor_ok, [])"
| "app_step st (Push e) =
     (case ws_step app_throws (app_ws st) e of (w, out) \<Rightarrow> (st\<lparr>app_ws := w\<rparr>, out))"
| "app_step st (Pull e) =
     (case poll_step app_throws (app_poll st) e of (p, out) \<Rightarrow> (st\<lparr>app_poll := p\<rparr>, out))"

fun app_run :: "app_state \<Rightarrow> app_event list \<Rightarrow> app_state \<times> callback list" where
  "app_run st [] = (st, [])"
| "app_run st (e # es) =
     (case app_step st e of (s1, out1) \<Rightarrow>
        (case app_run s1 es of (s2, out2) \<Rightarrow> (s2, out1 @ out2)))"

section \<open>Notions used in the properties\<close>

text \<open>
  The branch an envelope takes: in \<^verbatim>\<open>ws.onmessage\<close>, which reads \<^verbatim>\<open>type\<close> and \<^verbatim>\<open>status\<close>,
  and in \<^verbatim>\<open>poll\<close>, which reads \<^verbatim>\<open>status\<close> alone. The order of the tests is the order
  of the \<^verbatim>\<open>if\<close> chain of each function.
\<close>

datatype kind = Progress | Completed | Errored | KeepaliveAck

definition ws_kind :: "envelope \<Rightarrow> kind" where
  "ws_kind d =
     (if dtype d = Some ''pong'' then KeepaliveAck
      else if dtype d = Some ''completed'' \<or> dstatus d = Some ''completed'' then Completed
      else if dtype d = Some ''error'' \<or> dstatus d = Some ''error'' then Errored
      else Progress)"

definition poll_kind :: "envelope \<Rightarrow> kind" where
  "poll_kind d =
     (if dstatus d = Some ''completed'' then Completed
      else if dstatus d = Some ''error'' then Errored
      else Progress)"

text \<open>A consumer none of whose calls throws.\<close>

definition returns_normally :: "consumer \<Rightarrow> bool" where
  "returns_normally c \<longleftrightarrow> (\<forall>cb. \<not> c cb)"

fun app_is_start :: "app_event \<Rightarrow> bool" where
  "app_is_start (StartSolving _ _) = True"
| "app_is_start (Push e) = ws_is_start e"
| "app_is_start (Pull e) = poll_is_start e"

text \<open>
  A socket is live while it is connecting or open. In every state the hook can reach,
  the only socket that can be live is the one \<open>wsRef\<close> holds, and no address at or
  above \<open>ws_fresh\<close> is in use.
\<close>

definition live :: "socket \<Rightarrow> bool" where
  "live k \<longleftrightarrow> readyState k = CONNECTING \<or> readyState k = OPEN"

definition ws_inv :: "ws_state \<Rightarrow> bool" where
  "ws_inv s \<longleftrightarrow>
     (\<forall>i k. sockets s i = Some k \<longrightarrow> live k \<longrightarrow> wsRef s = Some i)
     \<and> (\<forall>i. ws_fresh s \<le> i \<longrightarrow> sockets s i = None)"

definition ws_dead :: "ws_state \<Rightarrow> bool" where
  "ws_dead s \<longleftrightarrow> (\<forall>i k. sockets s i = Some k \<longrightarrow> \<not> live k)"

text \<open>The pull channel is quiet when nothing is in flight and nothing is scheduled.\<close>

definition poll_quiet :: "poll_state \<Rightarrow> bool" where
  "poll_quiet s \<longleftrightarrow> inflight s = [] \<and> timers s = []"

text \<open>
  A list of events in which \<^verbatim>\<open>start\<close> is only ever called while no request is in
  flight, from the state \<open>s\<close> on.
\<close>

fun start_when_idle :: "consumer \<Rightarrow> poll_state \<Rightarrow> poll_event list \<Rightarrow> bool" where
  "start_when_idle c s [] = True"
| "start_when_idle c s (e # es) =
     ((poll_is_start e \<longrightarrow> inflight s = []) \<and> start_when_idle c (fst (poll_step c s e)) es)"

text \<open>
  Every closure has at most one request or timeout, and the closures that \<^verbatim>\<open>start\<close>
  has not made yet have none.
\<close>

definition poll_seq :: "poll_state \<Rightarrow> bool" where
  "poll_seq s \<longleftrightarrow> (\<forall>l. loop_load s l \<le> 1 \<and> (loops s \<le> l \<longrightarrow> loop_load s l = 0))"

text \<open>
  The envelopes of the scenarios: session \<^verbatim>\<open>abc\<close> with three items, a job that fails
  with \<^verbatim>\<open>rate limited\<close>, a keepalive acknowledgement, a completion that carries its
  discriminator in one field only, and a completion that carries no \<^verbatim>\<open>results\<close>.
\<close>

definition env_progress1 :: envelope where
  "env_progress1 = \<lparr>dtype = Some ''progress'', dstatus = Some ''processing'', derror = None,
     dprogress = Some 1, dtotal = Some 3, dresults = Some [''A'']\<rparr>"

definition env_progress2 :: envelope where
  "env_progress2 = \<lparr>dtype = Some ''progress'', dstatus = Some ''processing'', derror = None,
     dprogress = Some 2, dtotal = Some 3, dresults = Some [''A'', ''B'']\<rparr>"

definition env_completed :: envelope where
  "env_completed = \<lparr>dtype = Some ''completed'', dstatus = Some ''completed'', derror = None,
     dprogress = Some 3, dtotal = Some 3, dresults = Some [''A'', ''B'', ''C'']\<rparr>"

definition env_error :: envelope where
  "env_error = \<lparr>dtype = Some ''error'', dstatus = Some ''error'',
     derror = Some ''rate limited'', dprogress = Some 1, dtotal = Some 3, dresults = Some [''A'']\<rparr>"

definition env_pong :: envelope where
  "env_pong = \<lparr>dtype = Some ''pong'', dstatus = None, derror = None,
     dprogress = None, dtotal = None, dresults = Some []\<rparr>"

definition env_type_completed :: envelope where
  "env_type_completed = \<lparr>dtype = Some ''completed'', dstatus = None, derror = None,
     dprogress = Some 3, dtotal = Some 3, dresults = Some [''A'', ''B'', ''C'']\<rparr>"

definition env_completed_bare :: envelope where
  "env_completed_bare = \<lparr>dtype = Some ''completed'', dstatus = Some ''completed'',
     derror = None, dprogress = Some 3, dtotal = Some 3, dresults = None\<rparr>"

definition env_status_completed :: envelope where
  "env_status_completed = \<lparr>dtype = None, dstatus = Some ''completed'', derror = None,
     dprogress = Some 3, dtotal = Some 3, dresults = Some [''A'', ''B'', ''C'']\<rparr>"

section \<open>Calls of the consumer\<close>

lemma invoke_returns: "returns_normally c \<Longrightarrow> invoke c cbs = (cbs, True)"
  by (induction cbs) (simp_all add: returns_normally_def)

lemma invoke_one: "invoke c [cb] = ([cb], \<not> c cb)"
  by simp

lemma invoke_two:
  "invoke c [a, b] = (if c a then ([a], False) else ([a, b], \<not> c b))"
  by simp

section \<open>The push channel: stopping and the sockets that can be live\<close>

lemma ws_run_append:
  "ws_run c s (xs @ ys) =
     (fst (ws_run c (fst (ws_run c s xs)) ys),
      snd (ws_run c s xs) @ snd (ws_run c (fst (ws_run c s xs)) ys))"
  by (induction xs arbitrary: s) (auto split: prod.splits)

lemma ws_run_Cons:
  "ws_run c s (e # es) =
     (fst (ws_run c (fst (ws_step c s e)) es), snd (ws_step c s e) @ snd (ws_run c (fst (ws_step c s e)) es))"
  by (simp split: prod.splits)

lemma pingRef_ws_stop: "pingRef (ws_stop s) = None"
  by (simp add: ws_stop_def close_current_def clear_ping_def split: option.splits)

lemma wsRef_ws_stop: "wsRef (ws_stop s) = None"
  by (simp add: ws_stop_def close_current_def clear_ping_def split: option.splits)

lemma ws_stop_idle: "wsRef s = None \<Longrightarrow> pingRef s = None \<Longrightarrow> ws_stop s = s"
  by (simp add: ws_stop_def close_current_def clear_ping_def)

lemma ws_stop_idem: "ws_stop (ws_stop s) = ws_stop s"
  by (rule ws_stop_idle) (simp_all add: pingRef_ws_stop wsRef_ws_stop)

lemma ws_stop_init: "ws_stop ws_init = ws_init"
  by (rule ws_stop_idle) (simp_all add: ws_init_def)

lemma ws_stop_cancels:
  "pingRef s = Some t \<Longrightarrow> intervals (ws_stop s) t = None"
  by (simp add: ws_stop_def close_current_def clear_ping_def split: option.splits)

lemma ws_stop_closes:
  "wsRef s = Some i \<Longrightarrow> sockets s i = Some k \<Longrightarrow>
   sockets (ws_stop s) i = Some (socket_close k)"
  by (simp add: ws_stop_def close_current_def clear_ping_def split: option.splits)

lemma not_live_close [simp]: "\<not> live (socket_close k)"
  by (simp add: socket_close_def live_def)

lemma ws_inv_init: "ws_inv ws_init"
  by (simp add: ws_inv_def ws_init_def)

lemma sockets_clear_ping [simp]: "sockets (clear_ping s) = sockets s"
  and wsRef_clear_ping [simp]: "wsRef (clear_ping s) = wsRef s"
  and ws_fresh_clear_ping [simp]: "ws_fresh (clear_ping s) = ws_fresh s"
  by (simp_all add: clear_ping_def split: option.splits)

lemma ws_fresh_stop [simp]: "ws_fresh (ws_stop s) = ws_fresh s"
  by (simp add: ws_stop_def close_current_def split: option.splits)

lemma sockets_stop:
  "sockets (ws_stop s) j = Some k' \<Longrightarrow>
   (\<exists>k. sockets s j = Some k \<and> (k' = k \<and> wsRef s \<noteq> Some j \<or> k' = socket_close k))"
  by (auto simp: ws_stop_def close_current_def split: option.splits if_splits)

lemma sockets_stop_None: "sockets s j = None \<Longrightarrow> sockets (ws_stop s) j = None"
  by (auto simp: ws_stop_def close_current_def split: option.splits if_splits)

lemma ws_dead_stop: "ws_inv s \<Longrightarrow> ws_dead (ws_stop s)"
  unfolding ws_dead_def
proof (intro allI impI)
  fix j k' assume inv: "ws_inv s" and "sockets (ws_stop s) j = Some k'"
  then obtain k where k: "sockets s j = Some k"
    and d: "k' = k \<and> wsRef s \<noteq> Some j \<or> k' = socket_close k"
    using sockets_stop by blast
  from d show "\<not> live k'"
  proof
    assume "k' = k \<and> wsRef s \<noteq> Some j"
    with inv k show ?thesis by (auto simp: ws_inv_def)
  next
    assume "k' = socket_close k" then show ?thesis by simp
  qed
qed

lemma ws_dead_inv: "ws_dead s \<Longrightarrow> (\<forall>i. ws_fresh s \<le> i \<longrightarrow> sockets s i = None) \<Longrightarrow> ws_inv s"
  by (simp add: ws_inv_def ws_dead_def)

lemma ws_inv_stop: "ws_inv s \<Longrightarrow> ws_inv (ws_stop s)"
  by (rule ws_dead_inv) (auto simp: ws_dead_stop ws_inv_def sockets_stop_None)

lemma ws_dead_step:
  assumes "ws_dead s" "\<not> ws_is_start e"
  shows "ws_dead (fst (ws_step c s e)) \<and> snd (ws_step c s e) = []"
proof (cases e)
  case (WsStart x y) with assms show ?thesis by simp
next
  case WsStop
  have "ws_dead (ws_stop s)"
    unfolding ws_dead_def using assms(1) sockets_stop[of s] by (fastforce simp: ws_dead_def)
  with WsStop show ?thesis by simp
next
  case (WsOpen i) with assms show ?thesis
    by (auto simp: ws_dead_def live_def split: option.splits)
next
  case (WsMessage i fr) with assms show ?thesis
    by (auto simp: ws_dead_def live_def split: option.splits)
next
  case (WsFail i) with assms show ?thesis
    by (auto simp: ws_dead_def live_def ws_onclose_def ws_onerror_def set_readyState_def split: option.splits)
next
  case (WsClose i) with assms show ?thesis
    by (auto simp: ws_dead_def live_def ws_onclose_def set_readyState_def split: option.splits)
next
  case (WsPing t) with assms show ?thesis
    by (auto simp: ws_dead_def ws_ping_def split: option.splits)
qed

lemma ws_dead_run:
  "ws_dead s \<Longrightarrow> \<forall>e\<in>set evs. \<not> ws_is_start e \<Longrightarrow> snd (ws_run c s evs) = []"
proof (induction evs arbitrary: s)
  case Nil then show ?case by simp
next
  case (Cons e evs)
  from Cons.prems have d: "ws_dead (fst (ws_step c s e))" and o: "snd (ws_step c s e) = []"
    using ws_dead_step[where s=s and e=e and c=c] by simp_all
  from Cons.IH[OF d] Cons.prems(2) have "snd (ws_run c (fst (ws_step c s e)) evs) = []" by simp
  with o show ?case by (simp only: ws_run_Cons snd_conv append_Nil)
qed

lemma ws_inv_step: "ws_inv s \<Longrightarrow> ws_inv (fst (ws_step c s e))"
proof (cases e)
  case (WsStart sid ok)
  assume inv: "ws_inv s"
  have d: "ws_dead (ws_stop s)" and i: "ws_inv (ws_stop s)"
    using inv ws_dead_stop ws_inv_stop by blast+
  show ?thesis
  proof (cases ok)
    case False with WsStart i show ?thesis by (simp add: ws_start_def)
  next
    case True
    with WsStart d i show ?thesis
      by (auto simp: ws_start_def Let_def ws_inv_def ws_dead_def)
  qed
next
  case WsStop then show "ws_inv s \<Longrightarrow> ?thesis" by (simp add: ws_inv_stop)
next
  case (WsOpen i)
  assume inv: "ws_inv s"
  show ?thesis
  proof (cases "sockets s i")
    case None with WsOpen inv show ?thesis by simp
  next
    case (Some k)
    show ?thesis
    proof (cases "readyState k = CONNECTING")
      case False with WsOpen Some inv show ?thesis by simp
    next
      case True
      with inv Some have cur: "wsRef s = Some i" by (simp add: ws_inv_def live_def)
      have "\<And>j k'. sockets s j = Some k' \<Longrightarrow> live k' \<Longrightarrow> j = i"
        using inv cur by (auto simp: ws_inv_def)
      with WsOpen Some True inv cur show ?thesis
        by (auto simp: ws_inv_def ws_onopen_def set_readyState_def Let_def)
    qed
  qed
next
  case (WsMessage i fr)
  assume inv: "ws_inv s"
  have "fst (ws_onmessage c s sid fr) = s \<or> fst (ws_onmessage c s sid fr) = ws_stop s" for sid
    by (simp add: ws_onmessage_def invoke_one invoke_two split: frame.splits json.splits)
  then have "ws_inv (fst (ws_onmessage c s sid fr))" for sid
    using inv ws_inv_stop[OF inv] by metis
  with WsMessage inv show ?thesis by (simp split: option.splits)
next
  case (WsFail i) then show "ws_inv s \<Longrightarrow> ?thesis"
    by (auto simp: ws_inv_def live_def ws_onclose_def ws_onerror_def set_readyState_def split: option.splits)
next
  case (WsClose i) then show "ws_inv s \<Longrightarrow> ?thesis"
    by (auto simp: ws_inv_def live_def ws_onclose_def set_readyState_def split: option.splits)
next
  case (WsPing t) then show "ws_inv s \<Longrightarrow> ?thesis"
    by (auto simp: ws_ping_def ws_inv_def split: option.splits)
qed

lemma ws_inv_run: "ws_inv s \<Longrightarrow> ws_inv (fst (ws_run c s evs))"
proof (induction evs arbitrary: s)
  case Nil then show ?case by simp
next
  case (Cons e evs)
  from Cons.IH[OF ws_inv_step[OF Cons.prems, where e=e and c=c]] show ?case
    by (simp only: ws_run_Cons fst_conv)
qed

lemma ws_stop_silences:
  "\<forall>e\<in>set evs. \<not> ws_is_start e \<Longrightarrow>
   snd (ws_run c (ws_stop (fst (ws_run c ws_init evs0))) evs) = []"
  by (rule ws_dead_run[OF ws_dead_stop[OF ws_inv_run[OF ws_inv_init]]])

section \<open>The push channel: delivery\<close>

lemma ws_onmessage_kind:
  "ws_onmessage c s sid (Text (JObj d)) =
     (case ws_kind d of
        KeepaliveAck \<Rightarrow> (s, [])
      | Completed \<Rightarrow>
          (if c (OnTick sid (JObj d)) then (s, [OnTick sid (JObj d)])
           else if c (OnComplete (JObj d)) then (s, [OnTick sid (JObj d), OnComplete (JObj d)])
           else (ws_stop s, [OnTick sid (JObj d), OnComplete (JObj d)]))
      | Errored \<Rightarrow>
          (if c (OnError (error_message d)) then s else ws_stop s, [OnError (error_message d)])
      | Progress \<Rightarrow> (s, [OnTick sid (JObj d)]))"
  by (simp add: ws_onmessage_def ws_kind_def)

lemma ws_progress_run:
  assumes "sockets s i = Some k" "readyState k = OPEN" "\<forall>d\<in>set ds. ws_kind d = Progress"
  shows "ws_run c s (map (\<lambda>d. WsMessage i (Text (JObj d))) ds)
         = (s, map (\<lambda>d. OnTick (session k) (JObj d)) ds)"
  using assms(3)
proof (induction ds)
  case Nil then show ?case by simp
next
  case (Cons d ds)
  have "ws_step c s (WsMessage i (Text (JObj d))) = (s, [OnTick (session k) (JObj d)])"
    using Cons.prems assms(1,2) by (simp add: ws_onmessage_kind)
  with Cons show ?case by simp
qed

lemma ws_delivery:
  assumes ret: "returns_normally c"
    and reach: "s = fst (ws_run c ws_init evs0)"
    and sock: "sockets s i = Some k" "readyState k = OPEN"
    and ds: "\<forall>d\<in>set ds. ws_kind d = Progress"
    and t: "ws_kind t = Completed \<or> ws_kind t = Errored"
    and evs: "\<forall>e\<in>set evs. \<not> ws_is_start e"
  shows "snd (ws_run c s (map (\<lambda>d. WsMessage i (Text (JObj d))) ds
                        @ [WsMessage i (Text (JObj t))] @ evs))
         = map (\<lambda>d. OnTick (session k) (JObj d)) ds
           @ (if ws_kind t = Completed then [OnTick (session k) (JObj t), OnComplete (JObj t)]
              else [OnError (error_message t)])"
proof -
  have inv: "ws_inv s" unfolding reach by (rule ws_inv_run[OF ws_inv_init])
  have quiet: "snd (ws_run c (ws_stop s) evs) = []"
    by (rule ws_dead_run[OF ws_dead_stop[OF inv] evs])
  have fin: "ws_step c s (WsMessage i (Text (JObj t)))
      = (ws_stop s, if ws_kind t = Completed then [OnTick (session k) (JObj t), OnComplete (JObj t)]
              else [OnError (error_message t)])"
    using t sock ret by (auto simp: ws_onmessage_kind returns_normally_def)
  show ?thesis
    by (simp only: ws_run_append ws_progress_run[OF sock ds] ws_run_Cons fin quiet
        ws_run.simps(1) fst_conv snd_conv append_Nil2 append_Nil)
qed

lemma ws_malformed_ignored: "ws_step c s (WsMessage i Malformed) = (s, [])"
  by (simp add: ws_onmessage_def split: option.splits)

lemma ws_run_malformed_Cons: "ws_run c s (WsMessage i Malformed # ys) = ws_run c s ys"
  using ws_malformed_ignored[of c s i] by (cases "ws_run c s ys") (simp del: ws_step.simps)

lemma ws_malformed_between:
  "ws_run c s (xs @ [WsMessage i Malformed] @ ys) = ws_run c s (xs @ ys)"
  by (simp only: ws_run_append[of c s xs] append_Cons append_Nil ws_run_malformed_Cons)

section \<open>The pull channel: stopping and delivery\<close>

lemma poll_run_Cons:
  "poll_run c s (e # es) =
     (fst (poll_run c (fst (poll_step c s e)) es),
      snd (poll_step c s e) @ snd (poll_run c (fst (poll_step c s e)) es))"
  by (simp split: prod.splits)

lemma poll_run_append:
  "poll_run c s (xs @ ys) =
     (fst (poll_run c (fst (poll_run c s xs)) ys),
      snd (poll_run c s xs) @ snd (poll_run c (fst (poll_run c s xs)) ys))"
  by (induction xs arbitrary: s) (auto split: prod.splits)

lemma poll_resolved_kind:
  "poll_resolved c s p (JObj d) =
     (if c (OnTick (snd p) (JObj d)) then (schedule s p 2000, [OnTick (snd p) (JObj d)])
      else case poll_kind d of
        Completed \<Rightarrow>
          (if c (OnComplete (JObj d)) then schedule s p 2000 else s,
           [OnTick (snd p) (JObj d), OnComplete (JObj d)])
      | Errored \<Rightarrow>
          (if c (OnError (error_message d)) then schedule s p 2000 else s,
           [OnTick (snd p) (JObj d), OnError (error_message d)])
      | _ \<Rightarrow> (schedule s p 800, [OnTick (snd p) (JObj d)]))"
  by (simp add: poll_resolved_def poll_kind_def)

lemma poll_resolved_state:
  "fst (poll_resolved c s p data) = s \<or> (\<exists>d. fst (poll_resolved c s p data) = schedule s p d)"
  by (cases data) (auto simp: poll_resolved_def invoke_one invoke_two)

lemma poll_stop_idem: "poll_stop (poll_stop s) = poll_stop s"
  by (simp add: poll_stop_def split: option.splits)

lemma poll_stop_init: "poll_stop poll_init = poll_init"
  by (simp add: poll_stop_def poll_init_def)

lemma poll_stop_cancels: "timerRef s = Some t \<Longrightarrow> \<forall>x\<in>set (timers (poll_stop s)). tid x \<noteq> t"
  by (simp add: poll_stop_def)

lemma poll_quiet_step:
  "poll_quiet s \<Longrightarrow> \<not> poll_is_start e \<Longrightarrow>
   poll_quiet (fst (poll_step c s e)) \<and> snd (poll_step c s e) = []"
  by (cases e) (auto simp: poll_quiet_def poll_stop_def split: option.splits)

lemma poll_quiet_run:
  "poll_quiet s \<Longrightarrow> \<forall>e\<in>set evs. \<not> poll_is_start e \<Longrightarrow> snd (poll_run c s evs) = []"
proof (induction evs arbitrary: s)
  case Nil then show ?case by simp
next
  case (Cons e evs)
  from Cons.prems have d: "poll_quiet (fst (poll_step c s e))" and o: "snd (poll_step c s e) = []"
    using poll_quiet_step[where s=s and e=e and c=c] by simp_all
  from Cons.IH[OF d] Cons.prems(2) have "snd (poll_run c (fst (poll_step c s e)) evs) = []" by simp
  with o show ?case by (simp only: poll_run_Cons snd_conv append_Nil)
qed

lemma poll_stop_quiet:
  "inflight s = [] \<Longrightarrow> \<forall>t\<in>set (timers s). timerRef s = Some (tid t) \<Longrightarrow> poll_quiet (poll_stop s)"
  by (cases "timers s") (auto simp: poll_quiet_def poll_stop_def filter_empty_conv split: option.splits)

lemma poll_stop_silences:
  "inflight s = [] \<Longrightarrow> \<forall>t\<in>set (timers s). timerRef s = Some (tid t) \<Longrightarrow>
   \<forall>e\<in>set evs. \<not> poll_is_start e \<Longrightarrow> snd (poll_run c (poll_stop s) evs) = []"
  by (rule poll_quiet_run[OF poll_stop_quiet])

lemma poll_round:
  assumes "inflight s = [p]" "timers s = []" "poll_kind d = Progress"
  shows "\<exists>s'. poll_run c s [Resolve 0 (JObj d), Fire 0] = (s', [OnTick (snd p) (JObj d)])
              \<and> inflight s' = [p] \<and> timers s' = []"
  using assms by (simp add: poll_resolved_kind schedule_def poll_call_def)

lemma poll_round_failed:
  assumes "inflight s = [p]" "timers s = []"
  shows "\<exists>s'. poll_run c s [Reject 0, Fire 0] = (s', []) \<and> inflight s' = [p] \<and> timers s' = []"
  using assms by (simp add: poll_rejected_def schedule_def poll_call_def)

lemma poll_rounds:
  assumes "\<forall>d\<in>set ds. poll_kind d = Progress"
  shows "inflight s = [p] \<Longrightarrow> timers s = [] \<Longrightarrow>
    \<exists>s'. poll_run c s (concat (map (\<lambda>d. [Resolve 0 (JObj d), Fire 0]) ds))
            = (s', map (\<lambda>d. OnTick (snd p) (JObj d)) ds)
         \<and> inflight s' = [p] \<and> timers s' = []"
  using assms
proof (induction ds arbitrary: s)
  case Nil then show ?case by simp
next
  case (Cons d ds)
  from Cons.prems obtain s1 where
    r: "poll_run c s [Resolve 0 (JObj d), Fire 0] = (s1, [OnTick (snd p) (JObj d)])"
    and s1: "inflight s1 = [p]" "timers s1 = []"
    using poll_round[where s=s and p=p and d=d and c=c] by auto
  from Cons.IH[OF s1] Cons.prems obtain s2 where
    r2: "poll_run c s1 (concat (map (\<lambda>d. [Resolve 0 (JObj d), Fire 0]) ds))
            = (s2, map (\<lambda>d. OnTick (snd p) (JObj d)) ds)"
    and s2: "inflight s2 = [p]" "timers s2 = []" by auto
  have "poll_run c s (concat (map (\<lambda>d. [Resolve 0 (JObj d), Fire 0]) (d # ds)))
        = poll_run c s ([Resolve 0 (JObj d), Fire 0] @ concat (map (\<lambda>d. [Resolve 0 (JObj d), Fire 0]) ds))"
    by simp
  also have "\<dots> = (s2, map (\<lambda>d. OnTick (snd p) (JObj d)) (d # ds))"
    by (simp only: poll_run_append r r2 fst_conv snd_conv) simp
  finally show ?case using s2 by blast
qed

lemma poll_terminal:
  assumes "returns_normally c"
    and "inflight s = [p]" "timers s = []" "poll_kind t = Completed \<or> poll_kind t = Errored"
  shows "snd (poll_step c s (Resolve 0 (JObj t)))
           = [OnTick (snd p) (JObj t),
              if poll_kind t = Completed then OnComplete (JObj t) else OnError (error_message t)]
         \<and> poll_quiet (fst (poll_step c s (Resolve 0 (JObj t))))"
  using assms by (auto simp: poll_resolved_kind poll_quiet_def returns_normally_def)

lemma poll_delivery:
  assumes ret: "returns_normally c"
    and s: "inflight s = [p]" "timers s = []"
    and ds: "\<forall>d\<in>set ds. poll_kind d = Progress"
    and t: "poll_kind t = Completed \<or> poll_kind t = Errored"
    and evs: "\<forall>e\<in>set evs. \<not> poll_is_start e"
  shows "snd (poll_run c s (concat (map (\<lambda>d. [Resolve 0 (JObj d), Fire 0]) ds)
                          @ [Resolve 0 (JObj t)] @ evs))
         = map (\<lambda>d. OnTick (snd p) (JObj d)) ds
           @ [OnTick (snd p) (JObj t),
              if poll_kind t = Completed then OnComplete (JObj t) else OnError (error_message t)]"
proof -
  from poll_rounds[OF ds s] obtain s1 where
    r: "poll_run c s (concat (map (\<lambda>d. [Resolve 0 (JObj d), Fire 0]) ds))
          = (s1, map (\<lambda>d. OnTick (snd p) (JObj d)) ds)"
    and s1: "inflight s1 = [p]" "timers s1 = []" by blast
  note fin = poll_terminal[OF ret s1 t]
  have quiet: "snd (poll_run c (fst (poll_step c s1 (Resolve 0 (JObj t)))) evs) = []"
    using fin evs by (simp add: poll_quiet_run)
  show ?thesis
    by (simp only: poll_run_append r poll_run_Cons fin quiet
        poll_run.simps(1) fst_conv snd_conv append_Nil2 append_Nil)
qed

section \<open>The pull channel: one request at a time\<close>

lemma take_at_count:
  "take_at k xs = Some (x, ys) \<Longrightarrow>
   length (filter P xs) = length (filter P ys) + (if P x then 1 else 0)"
proof (induction k xs arbitrary: ys rule: take_at.induct)
  case (1 k) then show ?case by simp
next
  case (2 x xs) then show ?case by auto
next
  case (3 k x xs) then show ?case by (auto split: option.splits)
qed

lemma load_schedule:
  "loop_load (schedule s p d) l = loop_load s l + (if fst p = l then 1 else 0)"
  by (simp add: loop_load_def schedule_def)

lemma load_call:
  "loop_load (poll_call s p) l = loop_load s l + (if fst p = l then 1 else 0)"
  by (simp add: loop_load_def poll_call_def)

lemma load_stop: "loop_load (poll_stop s) l \<le> loop_load s l"
proof -
  have "length (filter P (filter Q xs)) \<le> length (filter P xs)" for P Q and xs :: "timer list"
    by (induction xs) auto
  then show ?thesis by (simp add: loop_load_def poll_stop_def split: option.splits)
qed

lemma load_take_inflight:
  "take_at k (inflight s) = Some (p, rest) \<Longrightarrow>
   loop_load s l = loop_load (s\<lparr>inflight := rest\<rparr>) l + (if fst p = l then 1 else 0)"
  using take_at_count[of k "inflight s" p rest "\<lambda>p. fst p = l"] by (simp add: loop_load_def)

lemma load_take_timer:
  "take_at k (timers s) = Some (t, rest) \<Longrightarrow>
   loop_load s l = loop_load (s\<lparr>timers := rest\<rparr>) l + (if fst (handler t) = l then 1 else 0)"
  using take_at_count[of k "timers s" t rest "\<lambda>t. fst (handler t) = l"] by (simp add: loop_load_def)

lemma loops_simps [simp]:
  "loops (schedule s p d) = loops s" "loops (poll_call s p) = loops s"
  "loops (poll_stop s) = loops s"
  by (simp_all add: schedule_def poll_call_def poll_stop_def split: option.splits)

lemma poll_seq_init: "poll_seq poll_init"
  by (simp add: poll_seq_def loop_load_def poll_init_def)

lemma load_update_loops [simp]: "loop_load (s\<lparr>loops := n\<rparr>) l = loop_load s l"
  by (simp add: loop_load_def)

lemma poll_seq_step: "poll_seq s \<Longrightarrow> poll_seq (fst (poll_step c s e))"
proof (cases e)
  case (PollStart sid)
  assume inv: "poll_seq s"
  show ?thesis unfolding poll_seq_def
  proof
    fix l
    have a: "loop_load (poll_stop s) l \<le> loop_load s l" by (rule load_stop)
    from inv have b: "loop_load s l \<le> 1" "loops s \<le> l \<Longrightarrow> loop_load s l = 0"
      by (simp_all add: poll_seq_def)
    show "loop_load (fst (poll_step c s e)) l \<le> 1
          \<and> (loops (fst (poll_step c s e)) \<le> l \<longrightarrow> loop_load (fst (poll_step c s e)) l = 0)"
      using a b by (auto simp: PollStart poll_start_def Let_def load_call)
  qed
next
  case PollStop
  assume inv: "poll_seq s"
  show ?thesis unfolding poll_seq_def
  proof
    fix l
    have a: "loop_load (poll_stop s) l \<le> loop_load s l" by (rule load_stop)
    from inv have b: "loop_load s l \<le> 1" "loops s \<le> l \<Longrightarrow> loop_load s l = 0"
      by (simp_all add: poll_seq_def)
    show "loop_load (fst (poll_step c s e)) l \<le> 1
          \<and> (loops (fst (poll_step c s e)) \<le> l \<longrightarrow> loop_load (fst (poll_step c s e)) l = 0)"
      using a b by (auto simp: PollStop)
  qed
next
  case (Resolve k data)
  assume inv: "poll_seq s"
  show ?thesis
  proof (cases "take_at k (inflight s)")
    case None with Resolve inv show ?thesis by simp
  next
    case (Some a)
    obtain p rest where a: "a = (p, rest)" by (cases a)
    show ?thesis unfolding poll_seq_def
    proof
      fix l
      from inv have b: "loop_load s l \<le> 1" "loops s \<le> l \<Longrightarrow> loop_load s l = 0"
        by (simp_all add: poll_seq_def)
      note ld = load_take_inflight[OF Some[unfolded a], of l]
      show "loop_load (fst (poll_step c s e)) l \<le> 1
          \<and> (loops (fst (poll_step c s e)) \<le> l \<longrightarrow> loop_load (fst (poll_step c s e)) l = 0)"
        using b ld poll_resolved_state[of c "s\<lparr>inflight := rest\<rparr>" p data]
        by (auto simp: Resolve Some a load_schedule)
    qed
  qed
next
  case (Reject k)
  assume inv: "poll_seq s"
  show ?thesis
  proof (cases "take_at k (inflight s)")
    case None with Reject inv show ?thesis by simp
  next
    case (Some a)
    obtain p rest where a: "a = (p, rest)" by (cases a)
    show ?thesis unfolding poll_seq_def
    proof
      fix l
      from inv have b: "loop_load s l \<le> 1" "loops s \<le> l \<Longrightarrow> loop_load s l = 0"
        by (simp_all add: poll_seq_def)
      note ld = load_take_inflight[OF Some[unfolded a], of l]
      show "loop_load (fst (poll_step c s e)) l \<le> 1
          \<and> (loops (fst (poll_step c s e)) \<le> l \<longrightarrow> loop_load (fst (poll_step c s e)) l = 0)"
        using b ld by (auto simp: Reject Some a poll_rejected_def load_schedule)
    qed
  qed
next
  case (Fire k)
  assume inv: "poll_seq s"
  show ?thesis
  proof (cases "take_at k (timers s)")
    case None with Fire inv show ?thesis by simp
  next
    case (Some a)
    obtain t rest where a: "a = (t, rest)" by (cases a)
    show ?thesis unfolding poll_seq_def
    proof
      fix l
      from inv have b: "loop_load s l \<le> 1" "loops s \<le> l \<Longrightarrow> loop_load s l = 0"
        by (simp_all add: poll_seq_def)
      note ld = load_take_timer[OF Some[unfolded a], of l]
      show "loop_load (fst (poll_step c s e)) l \<le> 1
          \<and> (loops (fst (poll_step c s e)) \<le> l \<longrightarrow> loop_load (fst (poll_step c s e)) l = 0)"
        using b ld by (auto simp: Fire Some a load_call)
    qed
  qed
qed

lemma poll_seq_run: "poll_seq s \<Longrightarrow> poll_seq (fst (poll_run c s evs))"
proof (induction evs arbitrary: s)
  case Nil then show ?case by simp
next
  case (Cons e evs)
  from Cons.IH[OF poll_seq_step[OF Cons.prems, where e=e and c=c]] show ?case
    by (simp only: poll_run_Cons fst_conv)
qed

lemma poll_sequential: "loop_load (fst (poll_run c poll_init evs)) l \<le> 1"
  using poll_seq_run[OF poll_seq_init, where evs=evs and c=c] by (simp add: poll_seq_def)

lemma poll_retries:
  "inflight s = [p] \<Longrightarrow> timers s = [] \<Longrightarrow>
   \<exists>s'. poll_run c s (concat (replicate n [Reject 0, Fire 0])) = (s', [])
        \<and> inflight s' = [p] \<and> timers s' = []"
proof (induction n arbitrary: s)
  case 0 then show ?case by simp
next
  case (Suc n)
  from poll_round_failed[OF Suc.prems] obtain s1 where
    r: "poll_run c s [Reject 0, Fire 0] = (s1, [])" and s1: "inflight s1 = [p]" "timers s1 = []"
    by blast
  from Suc.IH[OF s1] obtain s2 where
    r2: "poll_run c s1 (concat (replicate n [Reject 0, Fire 0])) = (s2, [])"
    and s2: "inflight s2 = [p]" "timers s2 = []" by blast
  have "poll_run c s (concat (replicate (Suc n) [Reject 0, Fire 0]))
        = poll_run c s ([Reject 0, Fire 0] @ concat (replicate n [Reject 0, Fire 0]))" by simp
  also have "\<dots> = (s2, [])"
    by (simp only: poll_run_append r r2 fst_conv snd_conv append_Nil)
  finally show ?case using s2 by blast
qed

lemma poll_start_issues:
  "poll_step c s (PollStart sid) = (poll_start s sid, [])
   \<and> inflight (poll_start s sid) = inflight s @ [(loops s, sid)]"
  by (simp add: poll_start_def poll_call_def poll_stop_def Let_def split: option.splits)

lemma poll_success_schedules:
  "take_at k (inflight s) = Some (p, rest) \<Longrightarrow> poll_kind d = Progress \<Longrightarrow>
   \<not> c (OnTick (snd p) (JObj d)) \<Longrightarrow>
   snd (poll_step c s (Resolve k (JObj d))) = [OnTick (snd p) (JObj d)]
   \<and> inflight (fst (poll_step c s (Resolve k (JObj d)))) = rest
   \<and> timers (fst (poll_step c s (Resolve k (JObj d))))
       = timers s @ [\<lparr>tid = next_timer s, delay = 800, handler = p\<rparr>]
   \<and> timerRef (fst (poll_step c s (Resolve k (JObj d)))) = Some (next_timer s)"
  by (simp add: poll_resolved_kind schedule_def)

lemma poll_failure_schedules:
  "take_at k (inflight s) = Some (p, rest) \<Longrightarrow>
   snd (poll_step c s (Reject k)) = []
   \<and> inflight (fst (poll_step c s (Reject k))) = rest
   \<and> timers (fst (poll_step c s (Reject k)))
       = timers s @ [\<lparr>tid = next_timer s, delay = 2000, handler = p\<rparr>]
   \<and> timerRef (fst (poll_step c s (Reject k))) = Some (next_timer s)"
  by (simp add: poll_rejected_def schedule_def)

lemma poll_fire_polls:
  "take_at k (timers s) = Some (t, rest) \<Longrightarrow>
   poll_step c s (Fire k) = (s\<lparr>timers := rest, inflight := inflight s @ [handler t]\<rparr>, [])"
  by (simp add: poll_call_def)

section \<open>The application\<close>

lemma app_run_Cons:
  "app_run s (e # es) =
     (fst (app_run (fst (app_step s e)) es),
      snd (app_step s e) @ snd (app_run (fst (app_step s e)) es))"
  by (simp split: prod.splits)

lemma app_run_append:
  "app_run s (xs @ ys) =
     (fst (app_run (fst (app_run s xs)) ys),
      snd (app_run s xs) @ snd (app_run (fst (app_run s xs)) ys))"
  by (induction xs arbitrary: s) (auto split: prod.splits)

lemma app_quiet_step:
  assumes "ws_dead (app_ws st)" "poll_quiet (app_poll st)" "\<not> app_is_start e"
  shows "ws_dead (app_ws (fst (app_step st e))) \<and> poll_quiet (app_poll (fst (app_step st e)))
         \<and> snd (app_step st e) = []"
proof (cases e)
  case (StartSolving sid ok) with assms show ?thesis by simp
next
  case (Push x)
  with assms ws_dead_step[where s="app_ws st" and e=x and c=app_throws] show ?thesis
    by (cases "ws_step app_throws (app_ws st) x") (simp del: ws_step.simps)
next
  case (Pull x)
  with assms poll_quiet_step[where s="app_poll st" and e=x and c=app_throws] show ?thesis
    by (cases "poll_step app_throws (app_poll st) x") (simp del: poll_step.simps)
qed

lemma app_quiet_run:
  "ws_dead (app_ws st) \<Longrightarrow> poll_quiet (app_poll st) \<Longrightarrow> \<forall>e\<in>set evs. \<not> app_is_start e \<Longrightarrow>
   snd (app_run st evs) = [] \<and> poll_quiet (app_poll (fst (app_run st evs)))"
proof (induction evs arbitrary: st)
  case Nil then show ?case by simp
next
  case (Cons e evs)
  from Cons.prems app_quiet_step[of st e]
  have d: "ws_dead (app_ws (fst (app_step st e)))" "poll_quiet (app_poll (fst (app_step st e)))"
    and o: "snd (app_step st e) = []" by simp_all
  from Cons.IH[OF d] Cons.prems(3) o show ?case
    by (simp only: app_run_Cons fst_conv snd_conv append_Nil) simp
qed

lemma async_failure_state:
  "ws_dead (app_ws (fst (app_run app_init [StartSolving sid True, Push (WsFail 1)])))
   \<and> app_poll (fst (app_run app_init [StartSolving sid True, Push (WsFail 1)])) = poll_init
   \<and> snd (app_run app_init [StartSolving sid True, Push (WsFail 1)]) = []"
  by (simp add: app_init_def startSolving_def ws_start_def ws_stop_def clear_ping_def
      close_current_def ws_init_def ws_onclose_def ws_onerror_def set_readyState_def
      ws_dead_def live_def)

lemma no_fallback:
  assumes "\<forall>e\<in>set evs. \<not> app_is_start e"
  shows "snd (app_run app_init ([StartSolving sid True, Push (WsFail 1)] @ evs)) = []
     \<and> inflight (app_poll (fst (app_run app_init ([StartSolving sid True, Push (WsFail 1)] @ evs)))) = []"
proof -
  let ?st = "fst (app_run app_init [StartSolving sid True, Push (WsFail 1)])"
  from async_failure_state[of sid] have d: "ws_dead (app_ws ?st)" and q: "poll_quiet (app_poll ?st)"
    and o: "snd (app_run app_init [StartSolving sid True, Push (WsFail 1)]) = []"
    by (simp_all add: poll_quiet_def poll_init_def)
  from app_quiet_run[OF d q assms] o show ?thesis
    by (simp only: app_run_append fst_conv snd_conv append_Nil poll_quiet_def)
qed

lemma fallback_on_throw:
  "startSolving st sid False
     = st\<lparr>app_ws := ws_stop (app_ws st), app_poll := poll_start (app_poll st) sid\<rparr>"
  by (simp add: startSolving_def ws_start_def)

lemma app_pull_run:
  "snd (app_run st (map Pull evs)) = snd (poll_run app_throws (app_poll st) evs)
   \<and> app_poll (fst (app_run st (map Pull evs))) = fst (poll_run app_throws (app_poll st) evs)"
proof (induction evs arbitrary: st)
  case Nil then show ?case by simp
next
  case (Cons e evs)
  have s: "app_poll (fst (app_step st (Pull e))) = fst (poll_step app_throws (app_poll st) e)"
    "snd (app_step st (Pull e)) = snd (poll_step app_throws (app_poll st) e)"
    by (simp_all del: poll_step.simps split: prod.splits)
  from Cons.IH[of "fst (app_step st (Pull e))"] s show ?case
    by (simp only: list.map app_run_Cons poll_run_Cons fst_conv snd_conv)
qed


section \<open>The pull channel: the requests and timeouts of one start\<close>

lemma take_at_length: "take_at k xs = Some (x, ys) \<Longrightarrow> length xs = Suc (length ys)"
  using take_at_count[of k xs x ys "\<lambda>_. True"] by simp

lemma poll_total_step:
  assumes "\<not> poll_is_start e"
  shows "length (inflight (fst (poll_step c s e))) + length (timers (fst (poll_step c s e)))
         \<le> length (inflight s) + length (timers s)"
proof (cases e)
  case (PollStart sid) with assms show ?thesis by simp
next
  case PollStop then show ?thesis
    by (simp add: poll_stop_def le_imp_less_Suc split: option.splits)
next
  case (Resolve k data)
  show ?thesis
  proof (cases "take_at k (inflight s)")
    case None with Resolve show ?thesis by simp
  next
    case (Some a)
    obtain p rest where a: "a = (p, rest)" by (cases a)
    from Some a have "length (inflight s) = Suc (length rest)" by (auto dest: take_at_length)
    with Resolve Some a poll_resolved_state[of c "s\<lparr>inflight := rest\<rparr>" p data]
    show ?thesis by (auto simp: schedule_def)
  qed
next
  case (Reject k) then show ?thesis
    by (auto simp: poll_rejected_def schedule_def dest: take_at_length split: option.splits)
next
  case (Fire k) then show ?thesis
    by (auto simp: poll_call_def dest: take_at_length split: option.splits)
qed

lemma poll_total_run:
  "\<forall>e\<in>set evs. \<not> poll_is_start e \<Longrightarrow>
   length (inflight (fst (poll_run c s evs))) + length (timers (fst (poll_run c s evs)))
   \<le> length (inflight s) + length (timers s)"
proof (induction evs arbitrary: s)
  case Nil then show ?case by simp
next
  case (Cons e evs)
  from Cons.prems have e: "\<not> poll_is_start e" and r: "\<forall>e\<in>set evs. \<not> poll_is_start e"
    by simp_all
  from Cons.IH[OF r, of "fst (poll_step c s e)"] poll_total_step[OF e, where s=s and c=c]
  show ?case by (simp only: poll_run_Cons fst_conv)
qed

lemma poll_tracked_step:
  assumes "\<not> poll_is_start e"
    and "length (inflight s) + length (timers s) \<le> 1"
    and "\<forall>t\<in>set (timers s). timerRef s = Some (tid t)"
  shows "\<forall>t\<in>set (timers (fst (poll_step c s e))). timerRef (fst (poll_step c s e)) = Some (tid t)"
proof (cases e)
  case (PollStart sid) with assms show ?thesis by simp
next
  case PollStop with assms(3) show ?thesis
    by (auto simp: poll_stop_def split: option.splits)
next
  case (Resolve k data)
  show ?thesis
  proof (cases "take_at k (inflight s)")
    case None with Resolve assms(3) show ?thesis by simp
  next
    case (Some a)
    obtain p rest where a: "a = (p, rest)" by (cases a)
    from Some a have "timers s = []" using assms(2) by (auto dest: take_at_length)
    with Resolve Some a poll_resolved_state[of c "s\<lparr>inflight := rest\<rparr>" p data]
    show ?thesis by (auto simp: schedule_def)
  qed
next
  case (Reject k)
  show ?thesis
  proof (cases "take_at k (inflight s)")
    case None with Reject assms(3) show ?thesis by simp
  next
    case (Some a)
    then have "timers s = []" using assms(2) by (cases a) (auto dest: take_at_length)
    with Reject Some show ?thesis
      by (cases a) (auto simp: poll_rejected_def schedule_def)
  qed
next
  case (Fire k)
  show ?thesis
  proof (cases "take_at k (timers s)")
    case None with Fire assms(3) show ?thesis by simp
  next
    case (Some a)
    then obtain t rest where a: "a = (t, rest)" by (cases a)
    with Some assms(2) have "rest = []" by (auto dest: take_at_length)
    with Fire Some a show ?thesis by (simp add: poll_call_def)
  qed
qed

lemma poll_tracked_run:
  "\<forall>e\<in>set evs. \<not> poll_is_start e \<Longrightarrow>
   length (inflight s) + length (timers s) \<le> 1 \<Longrightarrow>
   \<forall>t\<in>set (timers s). timerRef s = Some (tid t) \<Longrightarrow>
   \<forall>t\<in>set (timers (fst (poll_run c s evs))). timerRef (fst (poll_run c s evs)) = Some (tid t)"
proof (induction evs arbitrary: s)
  case Nil then show ?case by simp
next
  case (Cons e evs)
  from Cons.prems(1) have e: "\<not> poll_is_start e" and r: "\<forall>e\<in>set evs. \<not> poll_is_start e"
    by simp_all
  have l: "length (inflight (fst (poll_step c s e))) + length (timers (fst (poll_step c s e))) \<le> 1"
    using poll_total_step[OF e, where s=s and c=c] Cons.prems(2) by linarith
  from Cons.IH[OF r l poll_tracked_step[OF e Cons.prems(2,3)]]
  show ?case by (simp only: poll_run_Cons fst_conv)
qed

lemma poll_idle_start:
  assumes "inflight s = []" "\<forall>t\<in>set (timers s). timerRef s = Some (tid t)"
  shows "inflight (poll_start s sid) = [(loops s, sid)] \<and> timers (poll_start s sid) = []"
proof -
  from poll_stop_quiet[OF assms] have "inflight (poll_stop s) = []" "timers (poll_stop s) = []"
    by (simp_all add: poll_quiet_def)
  then show ?thesis by (simp add: poll_start_def poll_call_def Let_def)
qed

lemma poll_careful_run:
  "start_when_idle c s evs \<Longrightarrow>
   length (inflight s) + length (timers s) \<le> 1 \<Longrightarrow>
   \<forall>t\<in>set (timers s). timerRef s = Some (tid t) \<Longrightarrow>
   length (inflight (fst (poll_run c s evs))) + length (timers (fst (poll_run c s evs))) \<le> 1
   \<and> (\<forall>t\<in>set (timers (fst (poll_run c s evs))). timerRef (fst (poll_run c s evs)) = Some (tid t))"
proof (induction evs arbitrary: s)
  case Nil then show ?case by simp
next
  case (Cons e evs)
  from Cons.prems(1) have idle: "poll_is_start e \<Longrightarrow> inflight s = []"
    and r: "start_when_idle c (fst (poll_step c s e)) evs" by simp_all
  have "length (inflight (fst (poll_step c s e))) + length (timers (fst (poll_step c s e))) \<le> 1
    \<and> (\<forall>t\<in>set (timers (fst (poll_step c s e))). timerRef (fst (poll_step c s e)) = Some (tid t))"
  proof (cases "poll_is_start e")
    case True
    then obtain sid where e: "e = PollStart sid" by (cases e) simp_all
    from poll_idle_start[OF idle[OF True] Cons.prems(3), of sid] e show ?thesis by simp
  next
    case False
    from poll_total_step[OF False, where s=s and c=c] Cons.prems(2) poll_tracked_step[OF False Cons.prems(2,3), where c=c]
    show ?thesis by simp
  qed
  then have "length (inflight (fst (poll_run c (fst (poll_step c s e)) evs)))
      + length (timers (fst (poll_run c (fst (poll_step c s e)) evs))) \<le> 1
    \<and> (\<forall>t\<in>set (timers (fst (poll_run c (fst (poll_step c s e)) evs))).
          timerRef (fst (poll_run c (fst (poll_step c s e)) evs)) = Some (tid t))"
    using Cons.IH[OF r] by blast
  then show ?case unfolding poll_run_Cons fst_conv .
qed

lemma poll_careful:
  assumes "start_when_idle c poll_init evs"
  shows "length (inflight (fst (poll_run c poll_init evs)))
         + length (timers (fst (poll_run c poll_init evs))) \<le> 1"
    and "\<forall>t\<in>set (timers (fst (poll_run c poll_init evs))).
          timerRef (fst (poll_run c poll_init evs)) = Some (tid t)"
  using poll_careful_run[OF assms] by (simp_all add: poll_init_def)

lemma poll_careful_stop:
  assumes "start_when_idle c poll_init evs1"
    and "inflight (fst (poll_run c poll_init evs1)) = []"
    and "\<forall>e\<in>set pevs. \<not> poll_is_start e"
  shows "snd (poll_run c (poll_stop (fst (poll_run c poll_init evs1))) pevs) = []"
  by (rule poll_stop_silences[OF assms(2) poll_careful(2)[OF assms(1)] assms(3)])

section \<open>Unfolding for concrete runs\<close>

lemmas ws_defs = ws_init_def ws_start_def ws_stop_def clear_ping_def close_current_def
  socket_close_def ws_onopen_def ws_ping_def ws_onmessage_def ws_onerror_def ws_onclose_def
  set_readyState_def error_message_def app_throws_def Let_def

lemmas poll_defs = poll_init_def poll_start_def poll_stop_def poll_call_def poll_resolved_def
  poll_rejected_def schedule_def error_message_def app_throws_def Let_def

lemmas env_defs = env_progress1_def env_progress2_def env_completed_def env_error_def
  env_pong_def env_type_completed_def env_status_completed_def env_completed_bare_def

section \<open>Cancellation\<close>

text \<open>
  Claim C1 says that after \<^verbatim>\<open>stop()\<close> no callback is invoked, even for work that was in
  flight. The pull channel does not do that: \<^verbatim>\<open>stop()\<close> only cancels the timeout held in
  \<^verbatim>\<open>timerRef\<close>. After \<^verbatim>\<open>start('abc')\<close> the first request is in flight and no timeout
  exists, so \<^verbatim>\<open>stop()\<close> changes nothing; the response that resolves afterwards is
  ticked, the next request is scheduled, and the loop goes on until the job completes.
\<close>

theorem stop_misses_inflight_response:
  "poll_stop (poll_start poll_init ''abc'') = poll_start poll_init ''abc''
   \<and> inflight (poll_stop (poll_start poll_init ''abc'')) = [(0, ''abc'')]
   \<and> snd (poll_run app_throws (poll_stop (poll_start poll_init ''abc''))
         [Resolve 0 (JObj env_progress1), Fire 0, Resolve 0 (JObj env_completed)])
     = [OnTick ''abc'' (JObj env_progress1), OnTick ''abc'' (JObj env_completed),
        OnComplete (JObj env_completed)]"
  by (simp add: poll_defs env_defs)

text \<open>
  Where \<^verbatim>\<open>stop()\<close> does silence the hook, for every consumer: on the push channel in
  every state the hook can reach; on the pull channel when no request is in flight
  and every pending timeout is the one \<^verbatim>\<open>timerRef\<close> holds.
\<close>

lemma stop_silences_when_idle:
  "((\<forall>e\<in>set evs. \<not> ws_is_start e) \<longrightarrow>
      snd (ws_run c (ws_stop (fst (ws_run c ws_init evs0))) evs) = [])
   \<and> (inflight s = [] \<and> (\<forall>t\<in>set (timers s). timerRef s = Some (tid t))
        \<and> (\<forall>e\<in>set pevs. \<not> poll_is_start e) \<longrightarrow>
      snd (poll_run c (poll_stop s) pevs) = [])
   \<and> (start_when_idle c poll_init evs1 \<and> inflight (fst (poll_run c poll_init evs1)) = []
        \<and> (\<forall>e\<in>set pevs. \<not> poll_is_start e) \<longrightarrow>
      snd (poll_run c (poll_stop (fst (poll_run c poll_init evs1))) pevs) = [])"
proof (intro conjI impI)
  assume "\<forall>e\<in>set evs. \<not> ws_is_start e"
  then show "snd (ws_run c (ws_stop (fst (ws_run c ws_init evs0))) evs) = []"
    by (rule ws_stop_silences)
next
  assume "inflight s = [] \<and> (\<forall>t\<in>set (timers s). timerRef s = Some (tid t))
        \<and> (\<forall>e\<in>set pevs. \<not> poll_is_start e)"
  then show "snd (poll_run c (poll_stop s) pevs) = []"
    using poll_stop_silences[where s=s and evs=pevs and c=c] by blast
next
  assume "start_when_idle c poll_init evs1 \<and> inflight (fst (poll_run c poll_init evs1)) = []
        \<and> (\<forall>e\<in>set pevs. \<not> poll_is_start e)"
  then show "snd (poll_run c (poll_stop (fst (poll_run c poll_init evs1))) pevs) = []"
    using poll_careful_stop[where ?evs1.0=evs1 and pevs=pevs and c=c] by blast
qed

section \<open>Delivery in order\<close>

text \<open>
  Claim C2 says that the terminal callback fires exactly once and that nothing is
  called after it. Both hooks call the consumer inside their \<^verbatim>\<open>try\<close> block. The
  application's \<^verbatim>\<open>handleComplete\<close> throws on a completed envelope without \<^verbatim>\<open>results\<close>.
  On the pull channel the \<^verbatim>\<open>catch\<close> block then schedules the next request after 2000,
  and the same response is ticked and completed again, without end. On the push
  channel the \<^verbatim>\<open>catch\<close> block swallows the exception and \<^verbatim>\<open>stop()\<close> is skipped: the
  socket stays current and open, and the next frame is ticked after the terminal
  callback.
\<close>

theorem terminal_callback_throws:
  "snd (poll_run app_throws poll_init
         [PollStart ''abc'', Resolve 0 (JObj env_completed_bare), Fire 0,
          Resolve 0 (JObj env_completed_bare)])
     = [OnTick ''abc'' (JObj env_completed_bare), OnComplete (JObj env_completed_bare),
        OnTick ''abc'' (JObj env_completed_bare), OnComplete (JObj env_completed_bare)]
   \<and> map delay (timers (fst (poll_run app_throws poll_init
         [PollStart ''abc'', Resolve 0 (JObj env_completed_bare)]))) = [2000]
   \<and> snd (ws_run app_throws ws_init
         [WsStart ''abc'' True, WsOpen 1, WsMessage 1 (Text (JObj env_completed_bare)),
          WsMessage 1 (Text (JObj env_progress1))])
     = [OnTick ''abc'' (JObj env_completed_bare), OnComplete (JObj env_completed_bare),
        OnTick ''abc'' (JObj env_progress1)]
   \<and> wsRef (fst (ws_run app_throws ws_init
         [WsStart ''abc'' True, WsOpen 1, WsMessage 1 (Text (JObj env_completed_bare))]))
     = Some 1
   \<and> sockets (fst (ws_run app_throws ws_init
         [WsStart ''abc'' True, WsOpen 1, WsMessage 1 (Text (JObj env_completed_bare))])) 1
     = Some \<lparr>readyState = OPEN, session = ''abc''\<rparr>"
  by (simp add: ws_defs poll_defs env_defs)

text \<open>
  With a consumer none of whose calls throws, the claim holds on both channels:
  \<^verbatim>\<open>onTick\<close> once for each envelope that is not terminal, in order, then the terminal
  delivery, then nothing, whatever happens next short of a new \<^verbatim>\<open>start\<close>.
\<close>

lemma envelopes_in_order_when_callbacks_return:
  "(returns_normally c \<and> s = fst (ws_run c ws_init evs0) \<and> sockets s i = Some k \<and> readyState k = OPEN
      \<and> (\<forall>d\<in>set ds. ws_kind d = Progress) \<and> (ws_kind t = Completed \<or> ws_kind t = Errored)
      \<and> (\<forall>e\<in>set evs. \<not> ws_is_start e) \<longrightarrow>
    snd (ws_run c s (map (\<lambda>d. WsMessage i (Text (JObj d))) ds
                   @ [WsMessage i (Text (JObj t))] @ evs))
      = map (\<lambda>d. OnTick (session k) (JObj d)) ds
        @ (if ws_kind t = Completed then [OnTick (session k) (JObj t), OnComplete (JObj t)]
           else [OnError (error_message t)]))
   \<and> (returns_normally c \<and> inflight q = [p] \<and> timers q = []
      \<and> (\<forall>d\<in>set ds. poll_kind d = Progress) \<and> (poll_kind t = Completed \<or> poll_kind t = Errored)
      \<and> (\<forall>e\<in>set pevs. \<not> poll_is_start e) \<longrightarrow>
    snd (poll_run c q (concat (map (\<lambda>d. [Resolve 0 (JObj d), Fire 0]) ds)
                     @ [Resolve 0 (JObj t)] @ pevs))
      = map (\<lambda>d. OnTick (snd p) (JObj d)) ds
        @ [OnTick (snd p) (JObj t),
           if poll_kind t = Completed then OnComplete (JObj t) else OnError (error_message t)])"
proof (intro conjI impI)
  assume "returns_normally c \<and> s = fst (ws_run c ws_init evs0) \<and> sockets s i = Some k \<and> readyState k = OPEN
      \<and> (\<forall>d\<in>set ds. ws_kind d = Progress) \<and> (ws_kind t = Completed \<or> ws_kind t = Errored)
      \<and> (\<forall>e\<in>set evs. \<not> ws_is_start e)"
  then show "snd (ws_run c s (map (\<lambda>d. WsMessage i (Text (JObj d))) ds
                   @ [WsMessage i (Text (JObj t))] @ evs))
      = map (\<lambda>d. OnTick (session k) (JObj d)) ds
        @ (if ws_kind t = Completed then [OnTick (session k) (JObj t), OnComplete (JObj t)]
           else [OnError (error_message t)])"
    using ws_delivery[where c=c and s=s and ?evs0.0=evs0 and i=i and k=k and ds=ds and t=t and evs=evs]
    by blast
next
  assume "returns_normally c \<and> inflight q = [p] \<and> timers q = []
      \<and> (\<forall>d\<in>set ds. poll_kind d = Progress) \<and> (poll_kind t = Completed \<or> poll_kind t = Errored)
      \<and> (\<forall>e\<in>set pevs. \<not> poll_is_start e)"
  then show "snd (poll_run c q (concat (map (\<lambda>d. [Resolve 0 (JObj d), Fire 0]) ds)
                     @ [Resolve 0 (JObj t)] @ pevs))
      = map (\<lambda>d. OnTick (snd p) (JObj d)) ds
        @ [OnTick (snd p) (JObj t),
           if poll_kind t = Completed then OnComplete (JObj t) else OnError (error_message t)]"
    using poll_delivery[where c=c and s=q and p=p and ds=ds and t=t and evs=pevs] by blast
qed

section \<open>The tick before the terminal callback\<close>

text \<open>
  Claim C3, amended. For a completed envelope on either channel, and for an error
  envelope on the pull channel, \<^verbatim>\<open>onTick\<close> is called once with the envelope and, when it
  returns, the terminal callback follows at once. For an error envelope on the push
  channel \<^verbatim>\<open>onError\<close> is called alone: no \<^verbatim>\<open>onTick\<close> comes before it. This holds for
  every consumer.
\<close>

theorem terminal_envelope_callbacks:
  "(sockets s i = Some k \<and> readyState k = OPEN \<longrightarrow>
      (ws_kind t = Completed \<longrightarrow>
         snd (ws_step c s (WsMessage i (Text (JObj t))))
           = (if c (OnTick (session k) (JObj t)) then [OnTick (session k) (JObj t)]
              else [OnTick (session k) (JObj t), OnComplete (JObj t)]))
      \<and> (ws_kind t = Errored \<longrightarrow>
         snd (ws_step c s (WsMessage i (Text (JObj t)))) = [OnError (error_message t)]))
   \<and> (take_at n (inflight q) = Some (p, rest) \<longrightarrow>
      (poll_kind t = Completed \<longrightarrow>
         snd (poll_step c q (Resolve n (JObj t)))
           = (if c (OnTick (snd p) (JObj t)) then [OnTick (snd p) (JObj t)]
              else [OnTick (snd p) (JObj t), OnComplete (JObj t)]))
      \<and> (poll_kind t = Errored \<longrightarrow>
         snd (poll_step c q (Resolve n (JObj t)))
           = (if c (OnTick (snd p) (JObj t)) then [OnTick (snd p) (JObj t)]
              else [OnTick (snd p) (JObj t), OnError (error_message t)])))"
  by (simp add: ws_onmessage_kind poll_resolved_kind)

theorem terminal_envelope_callbacks_witness:
  "sockets (fst (ws_run app_throws ws_init [WsStart ''abc'' True, WsOpen 1])) 1
     = Some \<lparr>readyState = OPEN, session = ''abc''\<rparr>
   \<and> ws_kind env_completed = Completed \<and> poll_kind env_completed = Completed
   \<and> take_at 0 (inflight (poll_start poll_init ''abc'')) = Some ((0, ''abc''), [])
   \<and> snd (ws_step app_throws (fst (ws_run app_throws ws_init [WsStart ''abc'' True, WsOpen 1]))
        (WsMessage 1 (Text (JObj env_completed))))
     = [OnTick ''abc'' (JObj env_completed), OnComplete (JObj env_completed)]
   \<and> snd (poll_step app_throws (poll_start poll_init ''abc'') (Resolve 0 (JObj env_completed)))
     = [OnTick ''abc'' (JObj env_completed), OnComplete (JObj env_completed)]
   \<and> ws_kind env_error = Errored \<and> poll_kind env_error = Errored
   \<and> snd (ws_step app_throws (fst (ws_run app_throws ws_init [WsStart ''abc'' True, WsOpen 1]))
        (WsMessage 1 (Text (JObj env_error))))
     = [OnError (error_message env_error)]
   \<and> snd (poll_step app_throws (poll_start poll_init ''abc'') (Resolve 0 (JObj env_error)))
     = [OnTick ''abc'' (JObj env_error), OnError (error_message env_error)]"
proof -
  have h1: "sockets (fst (ws_run app_throws ws_init [WsStart ''abc'' True, WsOpen 1])) 1
     = Some \<lparr>readyState = OPEN, session = ''abc''\<rparr>"
    by (simp add: ws_defs)
  have h2: "ws_kind env_completed = Completed \<and> poll_kind env_completed = Completed"
    by (simp add: ws_kind_def poll_kind_def env_defs)
  have h3: "take_at 0 (inflight (poll_start poll_init ''abc'')) = Some ((0, ''abc''), [])"
    by (simp add: poll_defs)
  have h4: "\<not> app_throws (OnTick ''abc'' (JObj env_completed))
      \<and> \<not> app_throws (OnTick ''abc'' (JObj env_error))"
    by (simp add: app_throws_def)
  have h5: "ws_kind env_error = Errored \<and> poll_kind env_error = Errored"
    by (simp add: ws_kind_def poll_kind_def env_defs)
  show ?thesis
    using h1 h2 h3 h4 h5 terminal_envelope_callbacks
      [where c=app_throws and s="fst (ws_run app_throws ws_init [WsStart ''abc'' True, WsOpen 1])"
         and i=1 and k="\<lparr>readyState = OPEN, session = ''abc''\<rparr>" and t=env_completed
         and n=0 and q="poll_start poll_init ''abc''" and p="(0, ''abc'')" and rest="[]"]
      terminal_envelope_callbacks
      [where c=app_throws and s="fst (ws_run app_throws ws_init [WsStart ''abc'' True, WsOpen 1])"
         and i=1 and k="\<lparr>readyState = OPEN, session = ''abc''\<rparr>" and t=env_error
         and n=0 and q="poll_start poll_init ''abc''" and p="(0, ''abc'')" and rest="[]"]
    by (simp del: ws_step.simps poll_step.simps ws_run.simps)
qed

text \<open>
  The claim as it was stated fails for an error envelope on the push channel: the
  frame \<^verbatim>\<open>{type: 'error', error: 'rate limited'}\<close> on the open socket of session
  \<^verbatim>\<open>abc\<close> calls \<^verbatim>\<open>onError\<close> and nothing else.
\<close>

theorem push_error_has_no_tick:
  "snd (ws_run app_throws ws_init
         [WsStart ''abc'' True, WsOpen 1, WsMessage 1 (Text (JObj env_error))])
   = [OnError ''rate limited'']"
  by (simp add: ws_defs env_defs)

section \<open>Fallback to the pull channel\<close>

text \<open>
  Claim C4 says that when the push connection never opens, the pull channel takes
  over. The code starts the pull channel only when \<^verbatim>\<open>ws.start\<close> throws. When the
  constructor returns and the connection then fails before it opens, \<^verbatim>\<open>ws.onerror\<close>
  does nothing: no request is ever issued and no callback is ever called, whatever
  happens afterwards short of a new \<^verbatim>\<open>startSolving\<close>.
\<close>

theorem no_fallback_after_async_failure:
  "(\<forall>e\<in>set evs. \<not> app_is_start e) \<longrightarrow>
   snd (app_run app_init ([StartSolving sid True, Push (WsFail 1)] @ evs)) = []
   \<and> inflight (app_poll (fst (app_run app_init
        ([StartSolving sid True, Push (WsFail 1)] @ evs)))) = []"
  using no_fallback[of evs sid] by blast

theorem no_fallback_after_async_failure_witness:
  "list_all (\<lambda>e. \<not> app_is_start e)
     [Push (WsClose 1), Pull (Fire 0), Pull (Resolve 0 (JObj env_completed)),
      Push (WsMessage 1 (Text (JObj env_completed)))]
   \<and> snd (app_run app_init ([StartSolving ''abc'' True, Push (WsFail 1)]
        @ [Push (WsClose 1), Pull (Fire 0), Pull (Resolve 0 (JObj env_completed)),
           Push (WsMessage 1 (Text (JObj env_completed)))])) = []"
  using no_fallback_after_async_failure
    [of "[Push (WsClose 1), Pull (Fire 0), Pull (Resolve 0 (JObj env_completed)),
          Push (WsMessage 1 (Text (JObj env_completed)))]" "''abc''"]
  by (simp add: list_all_iff)

text \<open>
  The fallback that the code does have: when the constructor throws, \<^verbatim>\<open>startSolving\<close>
  starts the pull channel for the same session, and the callbacks of the application
  are those of the pull channel.
\<close>

lemma fallback_on_sync_throw:
  "snd (app_run (startSolving app_init sid False) (map Pull evs))
   = snd (poll_run app_throws (poll_start poll_init sid) evs)"
  by (simp add: app_pull_run fallback_on_throw app_init_def)

section \<open>The discriminator fields\<close>

text \<open>
  Claim C5, amended. On the push channel \<^verbatim>\<open>type\<close> and \<^verbatim>\<open>status\<close> are equivalent
  discriminators: unless \<^verbatim>\<open>type\<close> is \<^verbatim>\<open>pong\<close>, an envelope with \<^verbatim>\<open>completed\<close> in either field
  is handled as the terminal completion, and otherwise an envelope with \<^verbatim>\<open>error\<close> in
  either field is handled as the terminal error. On the pull channel \<^verbatim>\<open>status\<close> alone
  is the discriminator: \<^verbatim>\<open>completed\<close> there is the terminal completion, \<^verbatim>\<open>error\<close> there
  the terminal error, and with any other \<^verbatim>\<open>status\<close> the envelope is a tick and polling
  goes on, whatever \<^verbatim>\<open>type\<close> holds. The handling is given for every consumer; its last
  case each time is the one where the callbacks return.
\<close>

theorem discriminator_fields:
  "(dtype d \<noteq> Some ''pong'' \<longrightarrow>
      (dtype d = Some ''completed'' \<or> dstatus d = Some ''completed'' \<longrightarrow>
         ws_onmessage c s sid (Text (JObj d))
           = (if c (OnTick sid (JObj d)) then (s, [OnTick sid (JObj d)])
              else if c (OnComplete (JObj d))
                then (s, [OnTick sid (JObj d), OnComplete (JObj d)])
              else (ws_stop s, [OnTick sid (JObj d), OnComplete (JObj d)])))
      \<and> (dtype d \<noteq> Some ''completed'' \<and> dstatus d \<noteq> Some ''completed''
           \<and> (dtype d = Some ''error'' \<or> dstatus d = Some ''error'') \<longrightarrow>
         ws_onmessage c s sid (Text (JObj d))
           = (if c (OnError (error_message d)) then s else ws_stop s,
              [OnError (error_message d)])))
   \<and> (dstatus d = Some ''completed'' \<longrightarrow>
        poll_resolved c q p (JObj d)
          = (if c (OnTick (snd p) (JObj d)) then (schedule q p 2000, [OnTick (snd p) (JObj d)])
             else if c (OnComplete (JObj d))
               then (schedule q p 2000, [OnTick (snd p) (JObj d), OnComplete (JObj d)])
             else (q, [OnTick (snd p) (JObj d), OnComplete (JObj d)])))
   \<and> (dstatus d = Some ''error'' \<longrightarrow>
        poll_resolved c q p (JObj d)
          = (if c (OnTick (snd p) (JObj d)) then (schedule q p 2000, [OnTick (snd p) (JObj d)])
             else if c (OnError (error_message d))
               then (schedule q p 2000, [OnTick (snd p) (JObj d), OnError (error_message d)])
             else (q, [OnTick (snd p) (JObj d), OnError (error_message d)])))
   \<and> (dstatus d \<noteq> Some ''completed'' \<and> dstatus d \<noteq> Some ''error'' \<longrightarrow>
        poll_resolved c q p (JObj d)
          = (if c (OnTick (snd p) (JObj d)) then schedule q p 2000 else schedule q p 800,
             [OnTick (snd p) (JObj d)]))"
  by (simp add: ws_onmessage_def poll_resolved_def)

theorem discriminator_fields_witness:
  "dtype env_status_completed \<noteq> Some ''pong''
   \<and> dstatus env_status_completed = Some ''completed''
   \<and> ws_onmessage app_throws ws_init ''abc'' (Text (JObj env_status_completed))
       = (ws_stop ws_init,
          [OnTick ''abc'' (JObj env_status_completed), OnComplete (JObj env_status_completed)])
   \<and> poll_resolved app_throws poll_init (0, ''abc'') (JObj env_status_completed)
       = (poll_init,
          [OnTick ''abc'' (JObj env_status_completed), OnComplete (JObj env_status_completed)])
   \<and> dstatus env_type_completed \<noteq> Some ''completed''
   \<and> dstatus env_type_completed \<noteq> Some ''error''
   \<and> ws_onmessage app_throws ws_init ''abc'' (Text (JObj env_type_completed))
       = (ws_stop ws_init,
          [OnTick ''abc'' (JObj env_type_completed), OnComplete (JObj env_type_completed)])
   \<and> poll_resolved app_throws poll_init (0, ''abc'') (JObj env_type_completed)
       = (schedule poll_init (0, ''abc'') 800, [OnTick ''abc'' (JObj env_type_completed)])"
proof -
  have h: "dtype env_status_completed \<noteq> Some ''pong''
      \<and> dstatus env_status_completed = Some ''completed''
      \<and> dtype env_type_completed \<noteq> Some ''pong''
      \<and> dtype env_type_completed = Some ''completed''
      \<and> dstatus env_type_completed \<noteq> Some ''completed''
      \<and> dstatus env_type_completed \<noteq> Some ''error''
      \<and> \<not> app_throws (OnTick ''abc'' (JObj env_status_completed))
      \<and> \<not> app_throws (OnComplete (JObj env_status_completed))
      \<and> \<not> app_throws (OnTick ''abc'' (JObj env_type_completed))
      \<and> \<not> app_throws (OnComplete (JObj env_type_completed))"
    by (simp add: env_defs app_throws_def)
  show ?thesis
    using h
      discriminator_fields[where d=env_status_completed and c=app_throws and s=ws_init
        and sid="''abc''" and q=poll_init and p="(0, ''abc'')"]
      discriminator_fields[where d=env_type_completed and c=app_throws and s=ws_init
        and sid="''abc''" and q=poll_init and p="(0, ''abc'')"]
    by simp
qed

text \<open>
  The claim as it was stated fails on the pull channel: a response with
  \<^verbatim>\<open>type: 'completed'\<close> and no \<^verbatim>\<open>status\<close> is a tick after which the next request is
  scheduled, while the same response with \<^verbatim>\<open>status: 'completed'\<close> ends the session.
\<close>

theorem pull_ignores_type_field:
  "snd (poll_run app_throws poll_init
         [PollStart ''abc'', Resolve 0 (JObj env_type_completed)])
     = [OnTick ''abc'' (JObj env_type_completed)]
   \<and> map delay (timers (fst (poll_run app_throws poll_init
        [PollStart ''abc'', Resolve 0 (JObj env_type_completed)]))) = [800]
   \<and> snd (poll_run app_throws poll_init
         [PollStart ''abc'', Resolve 0 (JObj env_status_completed)])
     = [OnTick ''abc'' (JObj env_status_completed), OnComplete (JObj env_status_completed)]
   \<and> timers (fst (poll_run app_throws poll_init
        [PollStart ''abc'', Resolve 0 (JObj env_status_completed)])) = []"
  by (simp add: poll_defs env_defs)

section \<open>The polling loop\<close>

text \<open>
  Claim C6 says that the pull channel never runs two queries at once and retries
  until it is stopped. \<^verbatim>\<open>start\<close> begins with \<^verbatim>\<open>stop()\<close>, which cancels a pending timeout
  but not a request in flight: \<^verbatim>\<open>start('a')\<close> followed by \<^verbatim>\<open>start('b')\<close> leaves two requests
  in flight, and both sessions are ticked. For the same reason \<^verbatim>\<open>stop()\<close> with a
  request in flight does not end the retrying: when that request fails, the next
  attempt is scheduled after 2000 and issued.
\<close>

theorem poll_requests_overlap:
  "inflight (fst (poll_run app_throws poll_init [PollStart ''a'', PollStart ''b'']))
     = [(0, ''a''), (1, ''b'')]
   \<and> snd (poll_run app_throws poll_init
         [PollStart ''a'', PollStart ''b'', Resolve 0 (JObj env_progress1),
          Resolve 0 (JObj env_progress2)])
     = [OnTick ''a'' (JObj env_progress1), OnTick ''b'' (JObj env_progress2)]
   \<and> map delay (timers (fst (poll_run app_throws poll_init
         [PollStart ''abc'', PollStop, Reject 0]))) = [2000]
   \<and> inflight (fst (poll_run app_throws poll_init
         [PollStart ''abc'', PollStop, Reject 0, Fire 0])) = [(0, ''abc'')]"
  by (simp add: poll_defs env_defs)

text \<open>
  What the loop does keep, for every consumer: \<^verbatim>\<open>start\<close> issues one request at once and
  calls nothing; every closure has at most one request in flight or one timeout
  pending; as long as \<^verbatim>\<open>start\<close> is not called while a request is in flight there is at
  most one request or timeout in all; a response that is not terminal and whose tick
  returns schedules the next request after 800; a failed request calls nothing and
  schedules the next attempt after 2000; a timeout that fires issues the next
  request; and after any number of failures in a row the loop is still polling and
  has called nothing.
\<close>

lemma poll_loop_steps:
  "poll_step c s (PollStart sid) = (poll_start s sid, [])
   \<and> inflight (poll_start s sid) = inflight s @ [(loops s, sid)]
   \<and> loop_load (fst (poll_run c poll_init evs)) l \<le> 1
   \<and> (start_when_idle c poll_init evs \<longrightarrow>
        length (inflight (fst (poll_run c poll_init evs)))
        + length (timers (fst (poll_run c poll_init evs))) \<le> 1)
   \<and> (take_at k (inflight s) = Some (p, rest) \<and> poll_kind d = Progress
        \<and> \<not> c (OnTick (snd p) (JObj d)) \<longrightarrow>
        snd (poll_step c s (Resolve k (JObj d))) = [OnTick (snd p) (JObj d)]
        \<and> inflight (fst (poll_step c s (Resolve k (JObj d)))) = rest
        \<and> timers (fst (poll_step c s (Resolve k (JObj d))))
            = timers s @ [\<lparr>tid = next_timer s, delay = 800, handler = p\<rparr>]
        \<and> timerRef (fst (poll_step c s (Resolve k (JObj d)))) = Some (next_timer s))
   \<and> (take_at k (inflight s) = Some (p, rest) \<longrightarrow>
        snd (poll_step c s (Reject k)) = []
        \<and> inflight (fst (poll_step c s (Reject k))) = rest
        \<and> timers (fst (poll_step c s (Reject k)))
            = timers s @ [\<lparr>tid = next_timer s, delay = 2000, handler = p\<rparr>]
        \<and> timerRef (fst (poll_step c s (Reject k))) = Some (next_timer s))
   \<and> (take_at k (timers s) = Some (t, trest) \<longrightarrow>
        poll_step c s (Fire k) = (s\<lparr>timers := trest, inflight := inflight s @ [handler t]\<rparr>, []))
   \<and> (inflight s = [p] \<and> timers s = [] \<longrightarrow>
        (\<exists>s'. poll_run c s (concat (replicate n [Reject 0, Fire 0])) = (s', [])
              \<and> inflight s' = [p] \<and> timers s' = []))"
proof (intro conjI)
  show "poll_step c s (PollStart sid) = (poll_start s sid, [])"
    by simp
  show "inflight (poll_start s sid) = inflight s @ [(loops s, sid)]"
    using poll_start_issues[where s=s and sid=sid and c=c] by blast
  show "loop_load (fst (poll_run c poll_init evs)) l \<le> 1"
    by (rule poll_sequential)
  show "start_when_idle c poll_init evs \<longrightarrow>
        length (inflight (fst (poll_run c poll_init evs)))
        + length (timers (fst (poll_run c poll_init evs))) \<le> 1"
    using poll_careful(1)[where evs=evs and c=c] by blast
  show "take_at k (inflight s) = Some (p, rest) \<and> poll_kind d = Progress
        \<and> \<not> c (OnTick (snd p) (JObj d)) \<longrightarrow>
        snd (poll_step c s (Resolve k (JObj d))) = [OnTick (snd p) (JObj d)]
        \<and> inflight (fst (poll_step c s (Resolve k (JObj d)))) = rest
        \<and> timers (fst (poll_step c s (Resolve k (JObj d))))
            = timers s @ [\<lparr>tid = next_timer s, delay = 800, handler = p\<rparr>]
        \<and> timerRef (fst (poll_step c s (Resolve k (JObj d)))) = Some (next_timer s)"
    using poll_success_schedules[where k=k and s=s and p=p and rest=rest and d=d and c=c]
    by blast
  show "take_at k (inflight s) = Some (p, rest) \<longrightarrow>
        snd (poll_step c s (Reject k)) = []
        \<and> inflight (fst (poll_step c s (Reject k))) = rest
        \<and> timers (fst (poll_step c s (Reject k)))
            = timers s @ [\<lparr>tid = next_timer s, delay = 2000, handler = p\<rparr>]
        \<and> timerRef (fst (poll_step c s (Reject k))) = Some (next_timer s)"
    using poll_failure_schedules[where k=k and s=s and p=p and rest=rest and c=c] by blast
  show "take_at k (timers s) = Some (t, trest) \<longrightarrow>
        poll_step c s (Fire k) = (s\<lparr>timers := trest, inflight := inflight s @ [handler t]\<rparr>, [])"
    using poll_fire_polls[where k=k and s=s and t=t and rest=trest and c=c] by blast
  show "inflight s = [p] \<and> timers s = [] \<longrightarrow>
        (\<exists>s'. poll_run c s (concat (replicate n [Reject 0, Fire 0])) = (s', [])
              \<and> inflight s' = [p] \<and> timers s' = [])"
    using poll_retries[where s=s and p=p and n=n and c=c] by blast
qed

section \<open>Malformed payloads\<close>

text \<open>
  Claim C7. A frame that does not parse changes nothing in the push channel and calls
  nothing: a run with such a frame in it is the run without it, so of two valid
  envelopes around it both are delivered. A pull request that fails for a body that
  does not parse is a rejected request: it calls nothing, the next request follows,
  and the envelope that request brings is delivered as if nothing had happened.
\<close>

theorem malformed_dropped:
  "ws_step c s (WsMessage i Malformed) = (s, [])
   \<and> ws_run c s (xs @ [WsMessage i Malformed] @ ys) = ws_run c s (xs @ ys)
   \<and> (sockets s i = Some k \<and> readyState k = OPEN
        \<and> ws_kind d1 = Progress \<and> ws_kind d2 = Progress \<longrightarrow>
      snd (ws_run c s [WsMessage i (Text (JObj d1)), WsMessage i Malformed,
                     WsMessage i (Text (JObj d2))])
        = [OnTick (session k) (JObj d1), OnTick (session k) (JObj d2)])
   \<and> (inflight q = [p] \<and> timers q = [] \<and> poll_kind d1 = Progress \<longrightarrow>
      snd (poll_run c q [Resolve 0 (JObj d1), Fire 0, Reject 0, Fire 0, Resolve 0 j])
        = snd (poll_run c q [Resolve 0 (JObj d1), Fire 0, Resolve 0 j])
      \<and> snd (poll_run c q [Resolve 0 (JObj d1), Fire 0, Reject 0, Fire 0, Resolve 0 (JObj d2)])
        = OnTick (snd p) (JObj d1) # snd (poll_resolved c q p (JObj d2)))"
proof (intro conjI impI)
  show "ws_step c s (WsMessage i Malformed) = (s, [])"
    by (rule ws_malformed_ignored)
  show "ws_run c s (xs @ [WsMessage i Malformed] @ ys) = ws_run c s (xs @ ys)"
    by (rule ws_malformed_between)
next
  assume a: "sockets s i = Some k \<and> readyState k = OPEN
        \<and> ws_kind d1 = Progress \<and> ws_kind d2 = Progress"
  then have "\<forall>d\<in>set [d1, d2]. ws_kind d = Progress" by simp
  with a have "ws_run c s (map (\<lambda>d. WsMessage i (Text (JObj d))) [d1, d2])
      = (s, map (\<lambda>d. OnTick (session k) (JObj d)) [d1, d2])"
    using ws_progress_run[where s=s and i=i and k=k and ds="[d1, d2]" and c=c] by blast
  moreover have "ws_run c s ([WsMessage i (Text (JObj d1))] @ [WsMessage i Malformed]
        @ [WsMessage i (Text (JObj d2))])
      = ws_run c s ([WsMessage i (Text (JObj d1))] @ [WsMessage i (Text (JObj d2))])"
    by (rule ws_malformed_between)
  ultimately show "snd (ws_run c s [WsMessage i (Text (JObj d1)), WsMessage i Malformed,
                     WsMessage i (Text (JObj d2))])
        = [OnTick (session k) (JObj d1), OnTick (session k) (JObj d2)]"
    by (simp del: ws_run.simps ws_step.simps)
next
  assume a: "inflight q = [p] \<and> timers q = [] \<and> poll_kind d1 = Progress"
  then show "snd (poll_run c q [Resolve 0 (JObj d1), Fire 0, Reject 0, Fire 0, Resolve 0 j])
        = snd (poll_run c q [Resolve 0 (JObj d1), Fire 0, Resolve 0 j])"
    by (cases j) (simp_all add: poll_resolved_kind poll_resolved_def poll_rejected_def
        schedule_def poll_call_def split: kind.splits)
next
  assume a: "inflight q = [p] \<and> timers q = [] \<and> poll_kind d1 = Progress"
  then show "snd (poll_run c q [Resolve 0 (JObj d1), Fire 0, Reject 0, Fire 0,
                              Resolve 0 (JObj d2)])
        = OnTick (snd p) (JObj d1) # snd (poll_resolved c q p (JObj d2))"
    by (simp add: poll_resolved_kind poll_rejected_def schedule_def poll_call_def
        split: kind.splits)
qed

theorem malformed_dropped_witness:
  "sockets (fst (ws_run app_throws ws_init [WsStart ''abc'' True, WsOpen 1])) 1
     = Some \<lparr>readyState = OPEN, session = ''abc''\<rparr>
   \<and> ws_kind env_progress1 = Progress \<and> ws_kind env_progress2 = Progress
   \<and> poll_kind env_progress1 = Progress
   \<and> inflight (poll_start poll_init ''abc'') = [(0, ''abc'')]
   \<and> timers (poll_start poll_init ''abc'') = []
   \<and> snd (ws_run app_throws (fst (ws_run app_throws ws_init [WsStart ''abc'' True, WsOpen 1]))
        [WsMessage 1 (Text (JObj env_progress1)), WsMessage 1 Malformed,
         WsMessage 1 (Text (JObj env_progress2))])
     = [OnTick ''abc'' (JObj env_progress1), OnTick ''abc'' (JObj env_progress2)]
   \<and> snd (poll_run app_throws (poll_start poll_init ''abc'')
        [Resolve 0 (JObj env_progress1), Fire 0, Reject 0, Fire 0,
         Resolve 0 (JObj env_progress2)])
     = [OnTick ''abc'' (JObj env_progress1), OnTick ''abc'' (JObj env_progress2)]"
proof -
  have h1: "sockets (fst (ws_run app_throws ws_init [WsStart ''abc'' True, WsOpen 1])) 1
     = Some \<lparr>readyState = OPEN, session = ''abc''\<rparr>"
    by (simp add: ws_defs)
  have h2: "ws_kind env_progress1 = Progress \<and> ws_kind env_progress2 = Progress
     \<and> poll_kind env_progress1 = Progress \<and> poll_kind env_progress2 = Progress"
    by (simp add: ws_kind_def poll_kind_def env_defs)
  have h3: "inflight (poll_start poll_init ''abc'') = [(0, ''abc'')]
     \<and> timers (poll_start poll_init ''abc'') = []"
    by (simp add: poll_defs)
  have h4: "snd (poll_resolved app_throws (poll_start poll_init ''abc'') (0, ''abc'') (JObj env_progress2))
     = [OnTick ''abc'' (JObj env_progress2)]"
    using h2 by (simp add: poll_resolved_kind)
  show ?thesis
    using h1 h2 h3 h4 malformed_dropped
      [where c=app_throws
         and s="fst (ws_run app_throws ws_init [WsStart ''abc'' True, WsOpen 1])" and i=1
         and xs="[]" and ys="[]" and k="\<lparr>readyState = OPEN, session = ''abc''\<rparr>"
         and ?d1.0=env_progress1 and ?d2.0=env_progress2
         and q="poll_start poll_init ''abc''" and p="(0, ''abc'')" and j=JNull]
    by (simp del: ws_run.simps ws_step.simps poll_run.simps poll_step.simps)
qed

section \<open>Keepalive acknowledgements\<close>

text \<open>
  Claim C8. A keepalive acknowledgement, which on the wire is an envelope whose
  \<^verbatim>\<open>type\<close> is \<^verbatim>\<open>pong\<close>, is recognised by the push channel and discarded: the handler
  calls nothing and leaves the state as it was, on any socket and in any state.
\<close>

theorem keepalive_ack_discarded:
  "dtype d = Some ''pong'' \<longrightarrow>
     ws_onmessage c s sid (Text (JObj d)) = (s, [])
     \<and> ws_step c s (WsMessage i (Text (JObj d))) = (s, [])
     \<and> ws_run c s (xs @ [WsMessage i (Text (JObj d))] @ ys) = ws_run c s (xs @ ys)"
proof (intro impI conjI)
  assume p: "dtype d = Some ''pong''"
  show h: "ws_onmessage c s sid (Text (JObj d)) = (s, [])"
    using p by (simp add: ws_onmessage_def)
  have st: "ws_step c s' (WsMessage i (Text (JObj d))) = (s', [])" for s'
    using p by (simp add: ws_onmessage_def split: option.splits)
  from st show "ws_step c s (WsMessage i (Text (JObj d))) = (s, [])" .
  have "ws_run c s' (WsMessage i (Text (JObj d)) # ys) = ws_run c s' ys" for s'
    using st[of s'] by (cases "ws_run c s' ys") (simp del: ws_step.simps)
  then show "ws_run c s (xs @ [WsMessage i (Text (JObj d))] @ ys) = ws_run c s (xs @ ys)"
    by (simp only: ws_run_append[where s=s and xs=xs and c=c] append_Cons append_Nil)
qed

theorem keepalive_ack_discarded_witness:
  "dtype env_pong = Some ''pong''
   \<and> snd (ws_run app_throws (fst (ws_run app_throws ws_init [WsStart ''abc'' True, WsOpen 1]))
        ([WsMessage 1 (Text (JObj env_progress1))] @ [WsMessage 1 (Text (JObj env_pong))]
         @ [WsMessage 1 (Text (JObj env_progress2))]))
     = [OnTick ''abc'' (JObj env_progress1), OnTick ''abc'' (JObj env_progress2)]"
proof -
  have h: "dtype env_pong = Some ''pong''" by (simp add: env_defs)
  have r: "snd (ws_run app_throws (fst (ws_run app_throws ws_init [WsStart ''abc'' True, WsOpen 1]))
        ([WsMessage 1 (Text (JObj env_progress1))] @ [WsMessage 1 (Text (JObj env_progress2))]))
     = [OnTick ''abc'' (JObj env_progress1), OnTick ''abc'' (JObj env_progress2)]"
    by (simp add: ws_defs env_defs)
  show ?thesis
    using h r keepalive_ack_discarded
      [where d=env_pong and c=app_throws
         and s="fst (ws_run app_throws ws_init [WsStart ''abc'' True, WsOpen 1])"
         and sid="''abc''" and i=1 and xs="[WsMessage 1 (Text (JObj env_progress1))]"
         and ys="[WsMessage 1 (Text (JObj env_progress2))]"]
    by (simp del: ws_run.simps ws_step.simps)
qed

section \<open>Stopping twice, stopping before starting\<close>

text \<open>
  Claim C9, amended. \<^verbatim>\<open>stop()\<close> of either hook is a total operation that calls nothing
  and raises no error in any state. It is idempotent: stopping twice leaves the state
  that stopping once leaves. Before any \<^verbatim>\<open>start\<close>, and whenever the hook holds nothing,
  it changes nothing. After \<^verbatim>\<open>start\<close> and before the connection opens it is not a
  no-op: it closes the connecting socket and forgets it. On the push channel it
  cancels the keepalive interval if there is one and closes the current connection
  if there is one, open or still connecting, and forgets both; on the pull channel it
  cancels the timeout it holds.
\<close>

theorem stop_idempotent:
  "ws_stop (ws_stop s) = ws_stop s
   \<and> poll_stop (poll_stop q) = poll_stop q
   \<and> ws_step c s WsStop = (ws_stop s, [])
   \<and> poll_step c q PollStop = (poll_stop q, [])
   \<and> ws_stop ws_init = ws_init
   \<and> poll_stop poll_init = poll_init
   \<and> (wsRef s = None \<and> pingRef s = None \<longrightarrow> ws_stop s = s)
   \<and> (timerRef q = None \<longrightarrow> poll_stop q = q)
   \<and> pingRef (ws_stop s) = None
   \<and> wsRef (ws_stop s) = None
   \<and> timerRef (poll_stop q) = None
   \<and> (pingRef s = Some t \<longrightarrow> intervals (ws_stop s) t = None)
   \<and> (wsRef s = Some i \<and> sockets s i = Some k \<longrightarrow>
        sockets (ws_stop s) i = Some (socket_close k) \<and> \<not> live (socket_close k))
   \<and> (wsRef s = Some i \<and> sockets s i = Some k \<and> readyState k = CONNECTING \<longrightarrow>
        sockets (ws_stop s) i = Some (k\<lparr>readyState := CLOSING\<rparr>) \<and> ws_stop s \<noteq> s)
   \<and> (timerRef q = Some t \<longrightarrow> (\<forall>x\<in>set (timers (poll_stop q)). tid x \<noteq> t))"
proof (intro conjI)
  show "ws_stop (ws_stop s) = ws_stop s" by (rule ws_stop_idem)
  show "poll_stop (poll_stop q) = poll_stop q" by (rule poll_stop_idem)
  show "ws_step c s WsStop = (ws_stop s, [])" by simp
  show "poll_step c q PollStop = (poll_stop q, [])" by simp
  show "ws_stop ws_init = ws_init" by (rule ws_stop_init)
  show "poll_stop poll_init = poll_init" by (rule poll_stop_init)
  show "wsRef s = None \<and> pingRef s = None \<longrightarrow> ws_stop s = s"
    using ws_stop_idle[of s] by blast
  show "timerRef q = None \<longrightarrow> poll_stop q = q" by (simp add: poll_stop_def)
  show "pingRef (ws_stop s) = None" by (rule pingRef_ws_stop)
  show "wsRef (ws_stop s) = None" by (rule wsRef_ws_stop)
  show "timerRef (poll_stop q) = None" by (simp add: poll_stop_def split: option.splits)
  show "pingRef s = Some t \<longrightarrow> intervals (ws_stop s) t = None"
    using ws_stop_cancels[of s t] by blast
  show "wsRef s = Some i \<and> sockets s i = Some k \<longrightarrow>
        sockets (ws_stop s) i = Some (socket_close k) \<and> \<not> live (socket_close k)"
    using ws_stop_closes[of s i k] by simp
  show "wsRef s = Some i \<and> sockets s i = Some k \<and> readyState k = CONNECTING \<longrightarrow>
        sockets (ws_stop s) i = Some (k\<lparr>readyState := CLOSING\<rparr>) \<and> ws_stop s \<noteq> s"
  proof (intro impI, elim conjE)
    assume a: "wsRef s = Some i" "sockets s i = Some k" "readyState k = CONNECTING"
    from ws_stop_closes[OF a(1,2)] a(3)
    have "sockets (ws_stop s) i = Some (k\<lparr>readyState := CLOSING\<rparr>)"
      by (simp add: socket_close_def)
    moreover from a(1) wsRef_ws_stop[of s] have "ws_stop s \<noteq> s" by auto
    ultimately show "sockets (ws_stop s) i = Some (k\<lparr>readyState := CLOSING\<rparr>) \<and> ws_stop s \<noteq> s"
      by simp
  qed
  show "timerRef q = Some t \<longrightarrow> (\<forall>x\<in>set (timers (poll_stop q)). tid x \<noteq> t)"
    using poll_stop_cancels[of q t] by blast
qed

theorem stop_idempotent_witness:
  "wsRef (fst (ws_run app_throws ws_init [WsStart ''abc'' True, WsOpen 1])) = Some 1
   \<and> pingRef (fst (ws_run app_throws ws_init [WsStart ''abc'' True, WsOpen 1])) = Some 2
   \<and> sockets (fst (ws_run app_throws ws_init [WsStart ''abc'' True, WsOpen 1])) 1
       = Some \<lparr>readyState = OPEN, session = ''abc''\<rparr>
   \<and> timerRef (fst (poll_run app_throws poll_init [PollStart ''abc'', Reject 0])) = Some 1
   \<and> intervals (ws_stop (fst (ws_run app_throws ws_init [WsStart ''abc'' True, WsOpen 1]))) 2
       = None
   \<and> sockets (ws_stop (fst (ws_run app_throws ws_init [WsStart ''abc'' True, WsOpen 1]))) 1
       = Some \<lparr>readyState = CLOSING, session = ''abc''\<rparr>
   \<and> timers (poll_stop (fst (poll_run app_throws poll_init [PollStart ''abc'', Reject 0]))) = []
   \<and> ws_stop (ws_stop (fst (ws_run app_throws ws_init [WsStart ''abc'' True, WsOpen 1])))
       = ws_stop (fst (ws_run app_throws ws_init [WsStart ''abc'' True, WsOpen 1]))
   \<and> wsRef ws_init = None \<and> pingRef ws_init = None \<and> timerRef poll_init = None
   \<and> ws_stop ws_init = ws_init \<and> poll_stop poll_init = poll_init
   \<and> wsRef (fst (ws_run app_throws ws_init [WsStart ''abc'' True])) = Some 1
   \<and> sockets (fst (ws_run app_throws ws_init [WsStart ''abc'' True])) 1
       = Some \<lparr>readyState = CONNECTING, session = ''abc''\<rparr>
   \<and> sockets (ws_stop (fst (ws_run app_throws ws_init [WsStart ''abc'' True]))) 1
       = Some \<lparr>readyState = CLOSING, session = ''abc''\<rparr>"
proof -
  have g: "wsRef (fst (ws_run app_throws ws_init [WsStart ''abc'' True])) = Some 1
   \<and> sockets (fst (ws_run app_throws ws_init [WsStart ''abc'' True])) 1
       = Some \<lparr>readyState = CONNECTING, session = ''abc''\<rparr>"
    by (simp add: ws_defs)
  have h: "wsRef (fst (ws_run app_throws ws_init [WsStart ''abc'' True, WsOpen 1])) = Some 1
   \<and> pingRef (fst (ws_run app_throws ws_init [WsStart ''abc'' True, WsOpen 1])) = Some 2
   \<and> sockets (fst (ws_run app_throws ws_init [WsStart ''abc'' True, WsOpen 1])) 1
       = Some \<lparr>readyState = OPEN, session = ''abc''\<rparr>
   \<and> timerRef (fst (poll_run app_throws poll_init [PollStart ''abc'', Reject 0])) = Some 1
   \<and> timers (poll_stop (fst (poll_run app_throws poll_init [PollStart ''abc'', Reject 0]))) = []
   \<and> wsRef ws_init = None \<and> pingRef ws_init = None \<and> timerRef poll_init = None"
    by (simp add: ws_defs poll_defs)
  have cl: "socket_close \<lparr>readyState = OPEN, session = ''abc''\<rparr>
      = \<lparr>readyState = CLOSING, session = ''abc''\<rparr>"
    by (simp add: socket_close_def)
  have cl2: "socket_close \<lparr>readyState = CONNECTING, session = ''abc''\<rparr>
      = \<lparr>readyState = CLOSING, session = ''abc''\<rparr>"
    by (simp add: socket_close_def)
  show ?thesis
    using g h cl cl2 stop_idempotent
      [where s="fst (ws_run app_throws ws_init [WsStart ''abc'' True, WsOpen 1])"
         and q="fst (poll_run app_throws poll_init [PollStart ''abc'', Reject 0])"
         and c=app_throws and t=2 and i=1 and k="\<lparr>readyState = OPEN, session = ''abc''\<rparr>"]
      stop_idempotent
      [where s="fst (ws_run app_throws ws_init [WsStart ''abc'' True])"
         and q=poll_init and c=app_throws and t=2 and i=1
         and k="\<lparr>readyState = CONNECTING, session = ''abc''\<rparr>"]
    by (simp del: ws_run.simps ws_step.simps poll_run.simps poll_step.simps)
qed

text \<open>
  The claim as it was stated fails between \<^verbatim>\<open>start\<close> and the opening of the connection:
  after \<^verbatim>\<open>start('abc')\<close> the hook holds the connecting socket, and \<^verbatim>\<open>stop()\<close> closes that
  socket and clears \<^verbatim>\<open>wsRef\<close>. No error is raised, but the call is not a no-op.
\<close>

theorem stop_closes_connecting_socket:
  "wsRef (fst (ws_run app_throws ws_init [WsStart ''abc'' True])) = Some 1
   \<and> sockets (fst (ws_run app_throws ws_init [WsStart ''abc'' True])) 1
       = Some \<lparr>readyState = CONNECTING, session = ''abc''\<rparr>
   \<and> wsRef (ws_stop (fst (ws_run app_throws ws_init [WsStart ''abc'' True]))) = None
   \<and> sockets (ws_stop (fst (ws_run app_throws ws_init [WsStart ''abc'' True]))) 1
       = Some \<lparr>readyState = CLOSING, session = ''abc''\<rparr>
   \<and> ws_stop (fst (ws_run app_throws ws_init [WsStart ''abc'' True]))
       \<noteq> fst (ws_run app_throws ws_init [WsStart ''abc'' True])"
proof -
  have a: "wsRef (fst (ws_run app_throws ws_init [WsStart ''abc'' True])) = Some 1
   \<and> sockets (fst (ws_run app_throws ws_init [WsStart ''abc'' True])) 1
       = Some \<lparr>readyState = CONNECTING, session = ''abc''\<rparr>
   \<and> wsRef (ws_stop (fst (ws_run app_throws ws_init [WsStart ''abc'' True]))) = None
   \<and> sockets (ws_stop (fst (ws_run app_throws ws_init [WsStart ''abc'' True]))) 1
       = Some \<lparr>readyState = CLOSING, session = ''abc''\<rparr>"
    by (simp add: ws_defs)
  then have "ws_stop (fst (ws_run app_throws ws_init [WsStart ''abc'' True]))
       \<noteq> fst (ws_run app_throws ws_init [WsStart ''abc'' True])"
    by (metis option.distinct(1))
  with a show ?thesis by blast
qed

section \<open>Properties of the completion percentage\<close>

text \<open>
  Claim C10. The percentage shown by the progress view is \<open>progress / total * 100\<close> when
  \<open>total\<close> is greater than zero, and it is \<open>0\<close> when \<open>total\<close> is zero or missing (and
  whenever \<open>total > 0\<close> is false). The division is evaluated with a non-zero divisor
  only: whenever \<open>progress\<close> is a number, the percentage is a finite number.
\<close>

theorem percent_guarded:
  "(dtotal d = Some t \<and> 0 < t \<and> dprogress d = Some p \<longrightarrow> percent d = Some (p / t * 100))
   \<and> (dtotal d = None \<or> dtotal d = Some 0 \<longrightarrow> percent d = Some 0)
   \<and> (\<not> js_gt (dtotal d) 0 \<longrightarrow> percent d = Some 0)
   \<and> (dprogress d \<noteq> None \<longrightarrow> percent d \<noteq> None)"
  by (auto simp: percent_def js_gt_def js_div_def js_mul_def split: option.splits)

theorem percent_guarded_witness:
  "percent \<lparr>dtype = None, dstatus = None, derror = None, dprogress = Some 1,
            dtotal = Some 4, dresults = None\<rparr> = Some 25
   \<and> percent \<lparr>dtype = None, dstatus = None, derror = None, dprogress = Some 0,
              dtotal = Some 0, dresults = None\<rparr> = Some 0
   \<and> percent \<lparr>dtype = None, dstatus = None, derror = None, dprogress = Some 3,
              dtotal = None, dresults = None\<rparr> = Some 0"
  using percent_guarded [of "\<lparr>dtype = None, dstatus = None, derror = None, dprogress = Some 1,
            dtotal = Some 4, dresults = None\<rparr>" 4 1]
    percent_guarded [of "\<lparr>dtype = None, dstatus = None, derror = None, dprogress = Some 0,
            dtotal = Some 0, dresults = None\<rparr>" 0 0]
    percent_guarded [of "\<lparr>dtype = None, dstatus = None, derror = None, dprogress = Some 3,
            dtotal = None, dresults = None\<rparr>" 0 0]
  by simp

end
